theory Spec2Isabelle
  imports Complex_Main "HOL-Library.Word"
begin

unbundle bit_operations_syntax

section \<open>Shallow embedding of \<open>ropen.c\<close>\<close>

text \<open>
  The C file keeps one global tree of heap-allocated \<open>RBNode\<close>s linked by \<open>left\<close>,
  \<open>right\<close> and \<open>parent\<close> pointers, mutates it in place, and frees a node on a duplicate
  insert. The model therefore has an explicit store: a pointer is an \<open>addr option\<close>
  (\<open>None\<close> is \<open>NULL\<close>), the heap maps the addresses of live nodes to their contents, and
  every C statement reads its operands from the store current at that statement.

  Behaviour the C standard leaves undefined is a value of type \<open>error\<close>, and so is a
  statement that has no meaning because it names an identifier outside its scope
  (\<open>Undeclared\<close>); a loop or a recursion over the pointer structure that does not return
  is \<open>None\<close>.
\<close>

subsection \<open>Data\<close>

type_synonym addr = nat

text \<open>
  A \<open>float\<close> is one of: a finite value (the rational it denotes; the model admits every
  rational), an infinity, or a NaN. The program only stores floats and compares them with
  \<open><\<close>, which is false as soon as one side is a NaN; \<open>f32_le\<close> is the comparison \<open>\<le>\<close> of
  the same values, in which the specification states its thresholds.
\<close>

datatype float32 = Finite rat | PlusInf | MinusInf | NaN

fun f32_less :: "float32 \<Rightarrow> float32 \<Rightarrow> bool" where
  "f32_less (Finite x) (Finite y) = (x < y)"
| "f32_less (Finite x) PlusInf = True"
| "f32_less MinusInf (Finite y) = True"
| "f32_less MinusInf PlusInf = True"
| "f32_less _ _ = False"

fun f32_le :: "float32 \<Rightarrow> float32 \<Rightarrow> bool" where
  "f32_le (Finite x) (Finite y) = (x \<le> y)"
| "f32_le NaN _ = False"
| "f32_le _ NaN = False"
| "f32_le MinusInf _ = True"
| "f32_le _ PlusInf = True"
| "f32_le _ _ = False"

record RBNode =
  key :: "32 word"
  val :: "8 word"
  polarity :: "8 word"
  confidence :: float32
  color :: "8 word"
  height :: "8 word"
  left :: "addr option"
  right :: "addr option"
  parent :: "addr option"

text \<open>
  The globals: the heap of live nodes with the allocator's next fresh address, \<open>rb_root\<close>,
  and the array \<open>static int streak[256]\<close> that \<open>mark_measurement\<close> declares inside the
  braces of its \<open>if\<close> branch. Being static, the array keeps its contents from one call to
  the next, so it is a component of the state; its scope is that block only.
\<close>

record state =
  heap :: "addr \<Rightarrow> RBNode option"
  next_addr :: addr
  rb_root :: "addr option"
  streak :: "nat \<Rightarrow> int"

datatype error = NullDeref | Dangling | SignedOverflow | BufferOverflow | Undeclared

type_synonym 'a res = "(error + 'a) option"

definition ok :: "'a \<Rightarrow> 'a res" where
  "ok x = Some (Inr x)"

definition fail :: "error \<Rightarrow> 'a res" where
  "fail e = Some (Inl e)"

definition bindR :: "'a res \<Rightarrow> ('a \<Rightarrow> 'b res) \<Rightarrow> 'b res" where
  "bindR m f = (case m of None \<Rightarrow> None | Some (Inl e) \<Rightarrow> Some (Inl e) | Some (Inr x) \<Rightarrow> f x)"

lemma bindR_mono [partial_function_mono]:
  assumes "mono_option B" and "\<And>y. mono_option (\<lambda>f. C y f)"
  shows "mono_option (\<lambda>f. bindR (B f) (\<lambda>y. C y f))"
proof -
  have eq: "\<And>m g. bindR m g =
      Option.bind m (\<lambda>r. case r of Inl e \<Rightarrow> Some (Inl e) | Inr x \<Rightarrow> g x)"
    by (simp add: bindR_def split: option.splits sum.splits)
  have "mono_option (\<lambda>f. case y of Inl e \<Rightarrow> Some (Inl e) | Inr x \<Rightarrow> C x f)" for y
    by (cases y) (simp_all add: option.const_mono assms(2))
  then show ?thesis
    unfolding eq by (rule bind_mono [OF assms(1)])
qed

lemma bindR_cong [fundef_cong]:
  "m = m' \<Longrightarrow> (\<And>x. m' = Some (Inr x) \<Longrightarrow> f x = f' x) \<Longrightarrow> bindR m f = bindR m' f'"
  by (auto simp: bindR_def split: option.splits sum.splits)

text \<open>\<open>p->f\<close> as an rvalue, \<open>p->f = v\<close>, \<open>calloc\<close> and \<open>free\<close>.\<close>

definition rd :: "addr option \<Rightarrow> (RBNode \<Rightarrow> 'a) \<Rightarrow> state \<Rightarrow> 'a res" where
  "rd p f s = (case p of None \<Rightarrow> fail NullDeref
     | Some a \<Rightarrow> (case heap s a of None \<Rightarrow> fail Dangling | Some n \<Rightarrow> ok (f n)))"

definition wr :: "addr option \<Rightarrow> (RBNode \<Rightarrow> RBNode) \<Rightarrow> state \<Rightarrow> state res" where
  "wr p g s = (case p of None \<Rightarrow> fail NullDeref
     | Some a \<Rightarrow> (case heap s a of None \<Rightarrow> fail Dangling
         | Some n \<Rightarrow> ok (s\<lparr>heap := (heap s)(a \<mapsto> g n)\<rparr>)))"

definition zero_node :: RBNode where
  "zero_node = \<lparr>key = 0, val = 0, polarity = 0, confidence = Finite 0, color = 0, height = 0,
     left = None, right = None, parent = None\<rparr>"

definition calloc :: "state \<Rightarrow> addr option \<times> state" where
  "calloc s = (Some (next_addr s),
     s\<lparr>heap := (heap s)(next_addr s \<mapsto> zero_node), next_addr := Suc (next_addr s)\<rparr>)"

definition free :: "addr option \<Rightarrow> state \<Rightarrow> state res" where
  "free p s = (case p of None \<Rightarrow> ok s
     | Some a \<Rightarrow> (case heap s a of None \<Rightarrow> fail Dangling
         | Some n \<Rightarrow> ok (s\<lparr>heap := (heap s)(a := None)\<rparr>)))"

definition PRUNE_THRESHOLD :: float32 where
  "PRUNE_THRESHOLD = Finite (1 / 2)"

definition PRUNE_STREAK :: int where
  "PRUNE_STREAK = 1"

definition POLARITY_POS :: "8 word" where
  "POLARITY_POS = 0x2B"

definition POLARITY_NEG :: "8 word" where
  "POLARITY_NEG = 0x2D"

definition INT_MAX :: int where
  "INT_MAX = 2147483647"

definition init_state :: state where
  "init_state = \<lparr>heap = (\<lambda>_. None), next_addr = 0, rb_root = None, streak = (\<lambda>_. 0)\<rparr>"

subsection \<open>Height helpers and rotations\<close>

definition height' :: "addr option \<Rightarrow> state \<Rightarrow> (8 word) res" where
  "height' n s = (if n = None then ok 0 else rd n height s)"

definition bf :: "addr option \<Rightarrow> state \<Rightarrow> int res" where
  "bf n s = (if n = None then ok 0 else
     bindR (rd n left s) (\<lambda>l. bindR (height' l s) (\<lambda>hl.
     bindR (rd n right s) (\<lambda>r. bindR (height' r s) (\<lambda>hr.
     ok (uint hl - uint hr))))))"

definition update_height :: "addr option \<Rightarrow> state \<Rightarrow> state res" where
  "update_height n s = (if n = None then ok s else
     bindR (rd n left s) (\<lambda>l. bindR (height' l s) (\<lambda>hl.
     bindR (rd n right s) (\<lambda>r. bindR (height' r s) (\<lambda>hr.
     wr n (\<lambda>x. x\<lparr>height := word_of_int (1 + (if uint hl > uint hr then uint hl else uint hr))\<rparr>) s)))))"

definition rotate_left :: "addr option \<Rightarrow> state \<Rightarrow> (addr option \<times> state) res" where
  "rotate_left x s =
     bindR (rd x right s) (\<lambda>y.
     if y = None then ok (x, s) else
     bindR (rd y left s) (\<lambda>yl.
     bindR (wr x (\<lambda>n. n\<lparr>right := yl\<rparr>) s) (\<lambda>s1.
     bindR (rd y left s1) (\<lambda>yl1.
     bindR (if yl1 \<noteq> None then wr yl1 (\<lambda>n. n\<lparr>parent := x\<rparr>) s1 else ok s1) (\<lambda>s2.
     bindR (rd x parent s2) (\<lambda>xp.
     bindR (wr y (\<lambda>n. n\<lparr>parent := xp\<rparr>) s2) (\<lambda>s3.
     bindR (rd x parent s3) (\<lambda>xp3.
     bindR (if xp3 \<noteq> None then
              bindR (rd xp3 left s3) (\<lambda>pl.
              if x = pl then wr xp3 (\<lambda>n. n\<lparr>left := y\<rparr>) s3
              else wr xp3 (\<lambda>n. n\<lparr>right := y\<rparr>) s3)
            else ok (s3\<lparr>rb_root := y\<rparr>)) (\<lambda>s4.
     bindR (wr y (\<lambda>n. n\<lparr>left := x\<rparr>) s4) (\<lambda>s5.
     bindR (wr x (\<lambda>n. n\<lparr>parent := y\<rparr>) s5) (\<lambda>s6.
     bindR (update_height x s6) (\<lambda>s7.
     bindR (update_height y s7) (\<lambda>s8.
     ok (y, s8))))))))))))))"

definition rotate_right :: "addr option \<Rightarrow> state \<Rightarrow> (addr option \<times> state) res" where
  "rotate_right x s =
     bindR (rd x left s) (\<lambda>y.
     if y = None then ok (x, s) else
     bindR (rd y right s) (\<lambda>yr.
     bindR (wr x (\<lambda>n. n\<lparr>left := yr\<rparr>) s) (\<lambda>s1.
     bindR (rd y right s1) (\<lambda>yr1.
     bindR (if yr1 \<noteq> None then wr yr1 (\<lambda>n. n\<lparr>parent := x\<rparr>) s1 else ok s1) (\<lambda>s2.
     bindR (rd x parent s2) (\<lambda>xp.
     bindR (wr y (\<lambda>n. n\<lparr>parent := xp\<rparr>) s2) (\<lambda>s3.
     bindR (rd x parent s3) (\<lambda>xp3.
     bindR (if xp3 \<noteq> None then
              bindR (rd xp3 right s3) (\<lambda>pr.
              if x = pr then wr xp3 (\<lambda>n. n\<lparr>right := y\<rparr>) s3
              else wr xp3 (\<lambda>n. n\<lparr>left := y\<rparr>) s3)
            else ok (s3\<lparr>rb_root := y\<rparr>)) (\<lambda>s4.
     bindR (wr y (\<lambda>n. n\<lparr>right := x\<rparr>) s4) (\<lambda>s5.
     bindR (wr x (\<lambda>n. n\<lparr>parent := y\<rparr>) s5) (\<lambda>s6.
     bindR (update_height x s6) (\<lambda>s7.
     bindR (update_height y s7) (\<lambda>s8.
     ok (y, s8))))))))))))))"

partial_function (option) rebalance_up :: "addr option \<Rightarrow> state \<Rightarrow> state res" where
  "rebalance_up n s =
     (if n = None then ok s else
      bindR (update_height n s) (\<lambda>s1.
      bindR (bf n s1) (\<lambda>b.
      if b > 1 then
        bindR (rd n left s1) (\<lambda>l.
        bindR (bf l s1) (\<lambda>bl.
        bindR (if bl < 0 then
                 bindR (rd n left s1) (\<lambda>l1.
                 bindR (rotate_left l1 s1) (\<lambda>(r, s2).
                 wr n (\<lambda>x. x\<lparr>left := r\<rparr>) s2))
               else ok s1) (\<lambda>s3.
        bindR (rotate_right n s3) (\<lambda>(n', s4).
        rebalance_up n' s4))))
      else if b < - 1 then
        bindR (rd n right s1) (\<lambda>r.
        bindR (bf r s1) (\<lambda>br.
        bindR (if br > 0 then
                 bindR (rd n right s1) (\<lambda>r1.
                 bindR (rotate_right r1 s1) (\<lambda>(l, s2).
                 wr n (\<lambda>x. x\<lparr>right := l\<rparr>) s2))
               else ok s1) (\<lambda>s3.
        bindR (rotate_left n s3) (\<lambda>(n', s4).
        rebalance_up n' s4))))
      else
        bindR (rd n parent s1) (\<lambda>p. rebalance_up p s1))))"

declare rebalance_up.simps [code]

subsection \<open>Insert, find, mark\<close>

partial_function (option) bst_insert ::
    "addr option \<Rightarrow> addr option \<Rightarrow> state \<Rightarrow> (addr option \<times> state) res" where
  "bst_insert root' node s =
     (if root' = None then ok (node, s) else
      bindR (rd node key s) (\<lambda>nk.
      bindR (rd root' key s) (\<lambda>rk.
      if nk < rk then
        bindR (rd root' left s) (\<lambda>l.
        bindR (bst_insert l node s) (\<lambda>(r, s1).
        bindR (wr root' (\<lambda>x. x\<lparr>left := r\<rparr>) s1) (\<lambda>s2.
        bindR (rd root' left s2) (\<lambda>l2.
        bindR (wr l2 (\<lambda>x. x\<lparr>parent := root'\<rparr>) s2) (\<lambda>s3.
        bindR (update_height root' s3) (\<lambda>s4.
        ok (root', s4)))))))
      else if nk > rk then
        bindR (rd root' right s) (\<lambda>r.
        bindR (bst_insert r node s) (\<lambda>(r', s1).
        bindR (wr root' (\<lambda>x. x\<lparr>right := r'\<rparr>) s1) (\<lambda>s2.
        bindR (rd root' right s2) (\<lambda>r2.
        bindR (wr r2 (\<lambda>x. x\<lparr>parent := root'\<rparr>) s2) (\<lambda>s3.
        bindR (update_height root' s3) (\<lambda>s4.
        ok (root', s4)))))))
      else
        bindR (rd node val s) (\<lambda>v.
        bindR (wr root' (\<lambda>x. x\<lparr>val := v\<rparr>) s) (\<lambda>s1.
        bindR (rd node confidence s1) (\<lambda>c.
        bindR (wr root' (\<lambda>x. x\<lparr>confidence := c\<rparr>) s1) (\<lambda>s2.
        bindR (rd node polarity s2) (\<lambda>p.
        bindR (wr root' (\<lambda>x. x\<lparr>polarity := p\<rparr>) s2) (\<lambda>s3.
        bindR (free node s3) (\<lambda>s4.
        ok (root', s4)))))))))))"

declare bst_insert.simps [code]

definition rb_insert :: "32 word \<Rightarrow> 8 word \<Rightarrow> float32 \<Rightarrow> 8 word \<Rightarrow> state \<Rightarrow> state res" where
  "rb_insert k v conf pol s =
     (case calloc s of (n, s0) \<Rightarrow>
      bindR (wr n (\<lambda>x. x\<lparr>key := k\<rparr>) s0) (\<lambda>s1.
      bindR (wr n (\<lambda>x. x\<lparr>val := v\<rparr>) s1) (\<lambda>s2.
      bindR (wr n (\<lambda>x. x\<lparr>confidence := conf\<rparr>) s2) (\<lambda>s3.
      bindR (wr n (\<lambda>x. x\<lparr>polarity := pol\<rparr>) s3) (\<lambda>s4.
      bindR (wr n (\<lambda>x. x\<lparr>color := (if rb_root s4 \<noteq> None then 1 else 0)\<rparr>) s4) (\<lambda>s5.
      bindR (bst_insert (rb_root s5) n s5) (\<lambda>(r, s6).
      let s7 = s6\<lparr>rb_root := r\<rparr> in
      bindR (rd n parent s7) (\<lambda>p.
      if p \<noteq> None then bindR (rd n parent s7) (\<lambda>p'. rebalance_up p' s7)
      else rebalance_up n s7))))))))"

partial_function (option) find_loop :: "32 word \<Rightarrow> addr option \<Rightarrow> state \<Rightarrow> (addr option) res" where
  "find_loop k cur s =
     (if cur = None then ok None else
      bindR (rd cur key s) (\<lambda>ck.
      if k = ck then ok cur else
      bindR (if k < ck then rd cur left s else rd cur right s) (\<lambda>nxt.
      find_loop k nxt s)))"

declare find_loop.simps [code]

definition find' :: "32 word \<Rightarrow> state \<Rightarrow> (addr option) res" where
  "find' k s = find_loop k (rb_root s) s"

text \<open>
  \<open>streak[key & 0xFF]++\<close> on an \<open>int\<close> holding \<open>INT_MAX\<close> is a signed overflow.
  A polarity argument of \<open>0\<close> means that none was supplied. The \<open>else\<close> branch is the
  statement \<open>streak[key & 0xFF] = 0\<close>, written after the block that declares \<open>streak\<close> has
  been closed: no array \<open>streak\<close> is in scope there, and the branch is \<open>Undeclared\<close>.
\<close>

definition mark_measurement :: "32 word \<Rightarrow> float32 \<Rightarrow> 8 word \<Rightarrow> state \<Rightarrow> state res" where
  "mark_measurement k conf pol s =
     bindR (find' k s) (\<lambda>n.
     if n = None then ok s else
     bindR (wr n (\<lambda>x. x\<lparr>confidence := conf\<rparr>) s) (\<lambda>s1.
     bindR (if pol \<noteq> 0 then wr n (\<lambda>x. x\<lparr>polarity := pol\<rparr>) s1 else ok s1) (\<lambda>s2.
     bindR (rd n polarity s2) (\<lambda>p.
     let i = unat (k AND 0xFF) in
     if f32_less conf PRUNE_THRESHOLD \<or> p = POLARITY_NEG then
       (if streak s2 i = INT_MAX then fail SignedOverflow else
        let s3 = s2\<lparr>streak := (streak s2)(i := streak s2 i + 1)\<rparr> in
        if streak s3 i \<ge> PRUNE_STREAK then
          bindR (wr n (\<lambda>x. x\<lparr>val := 0\<rparr>) s3) (\<lambda>s4.
          wr n (\<lambda>x. x\<lparr>confidence := Finite 0\<rparr>) s4)
        else ok s3)
     else fail Undeclared))))"

subsection \<open>The 2-to-1 encoder\<close>

definition conjugate :: "8 word \<Rightarrow> 8 word" where
  "conjugate x = 0xF XOR x"

text \<open>
  \<open>in\<close> and \<open>out\<close> are arrays: a list with the allocated length, and for \<open>out\<close> the offset
  \<open>off\<close> of the pointer that was passed (\<open>out + total\<close> in \<open>rift_open\<close>). An access outside
  the array is an error. \<open>size_t\<close> counters are natural numbers (they count elements of
  arrays that exist); the cast \<open>(uint32_t)out_len\<close> wraps.
\<close>

definition read_in :: "8 word list \<Rightarrow> nat \<Rightarrow> (8 word) res" where
  "read_in inp i = (if i < length inp then ok (inp ! i) else fail BufferOverflow)"

definition write_out :: "8 word list \<Rightarrow> nat \<Rightarrow> 8 word \<Rightarrow> (8 word list) res" where
  "write_out out i v = (if i < length out then ok (out[i := v]) else fail BufferOverflow)"

function rift_encode_loop ::
    "8 word list \<Rightarrow> nat \<Rightarrow> 8 word list \<Rightarrow> nat \<Rightarrow> bool \<Rightarrow> nat \<Rightarrow> nat \<Rightarrow> state
      \<Rightarrow> (nat \<times> 8 word list \<times> state) res" where
  "rift_encode_loop inp in_len out off polarity_A i out_len s =
     (if i < in_len then
        bindR (read_in inp i) (\<lambda>a.
        bindR (if i + 1 < in_len then read_in inp (i + 1) else ok 0x00) (\<lambda>b.
        let logical = (if polarity_A then a else conjugate a)
                        XOR (if polarity_A then conjugate b else b) in
        bindR (write_out out (off + out_len) logical) (\<lambda>out1.
        let out_len1 = out_len + 1 in
        bindR (rb_insert (word_of_nat out_len1) logical (Finite 1)
                 (if polarity_A then 0x2B else 0x2D) s) (\<lambda>s1.
        rift_encode_loop inp in_len out1 off polarity_A (i + 2) out_len1 s1))))
      else ok (out_len, out, s))"
  by pat_completeness auto
termination
  by (relation "measure (\<lambda>(inp, in_len, out, off, polarity_A, i, out_len, s). in_len - i)") auto

definition rift_encode ::
    "8 word list \<Rightarrow> nat \<Rightarrow> 8 word list \<Rightarrow> nat \<Rightarrow> bool \<Rightarrow> state
      \<Rightarrow> (nat \<times> 8 word list \<times> state) res" where
  "rift_encode inp in_len out off polarity_A s =
     rift_encode_loop inp in_len out off polarity_A 0 0 s"

subsection \<open>The entry point\<close>

text \<open>
  The C library's stream: the bytes of the file, the read position and the end-of-file
  indicator. \<open>fread\<close> of \<open>cnt\<close> bytes returns the bytes it could read and raises the
  indicator when fewer than \<open>cnt\<close> were left. \<open>fopen\<close> looks the path up in a file system
  and yields no stream when the file cannot be opened.
\<close>

record FILE =
  contents :: "8 word list"
  pos :: nat
  eof :: bool

definition fopen :: "(string \<Rightarrow> 8 word list option) \<Rightarrow> string \<Rightarrow> FILE option" where
  "fopen fs path = map_option (\<lambda>bs. \<lparr>contents = bs, pos = 0, eof = False\<rparr>) (fs path)"

definition fread :: "nat \<Rightarrow> FILE \<Rightarrow> 8 word list \<times> nat \<times> FILE" where
  "fread cnt f =
     (let n = min cnt (length (contents f) - pos f) in
      (take n (drop (pos f) (contents f)), n, f\<lparr>pos := pos f + n, eof := eof f \<or> n < cnt\<rparr>))"

function rift_open_loop ::
    "FILE \<Rightarrow> 8 word list \<Rightarrow> nat \<Rightarrow> bool \<Rightarrow> nat \<Rightarrow> state \<Rightarrow> (nat \<times> 8 word list \<times> state) res" where
  "rift_open_loop f out out_cap polarity_A total' s =
     (if \<not> eof f \<and> total' < out_cap then
        (case fread 4096 f of (buf, n, f') \<Rightarrow>
         bindR (rift_encode buf n out total' polarity_A s) (\<lambda>(m, out', s').
         rift_open_loop f' out' out_cap polarity_A (total' + m) s'))
      else ok (total', out, s))"
  by pat_completeness auto
termination
  by (relation "measure (\<lambda>(f, out, out_cap, polarity_A, total', s).
        if eof f then 0 else 1 + (length (contents f) - pos f))")
     (auto simp: fread_def Let_def min_def split: if_splits)

definition rift_open ::
    "(string \<Rightarrow> 8 word list option) \<Rightarrow> string \<Rightarrow> 8 word list \<Rightarrow> nat \<Rightarrow> bool \<Rightarrow> state
      \<Rightarrow> (nat \<times> 8 word list \<times> state) res" where
  "rift_open fs path out out_cap polarity_A s =
     (case fopen fs path of None \<Rightarrow> ok (0, out, s)
      | Some f \<Rightarrow> rift_open_loop f out out_cap polarity_A 0 s)"

definition rift_prune_negative :: "state \<Rightarrow> state" where
  "rift_prune_negative s = s"


subsection \<open>Callers and observations\<close>

text \<open>
  A caller of the index performs a sequence of the three operations; \<open>run\<close> executes such
  a sequence and stops at the first error. \<open>find\<close> only returns a pointer; \<open>lookup\<close> is
  the caller that reads the value, the confidence and the polarity of the node found.
\<close>

definition lookup :: "32 word \<Rightarrow> state \<Rightarrow> ((8 word \<times> float32 \<times> 8 word) option) res" where
  "lookup k s =
     bindR (find' k s) (\<lambda>n.
     if n = None then ok None else
     bindR (rd n val s) (\<lambda>v.
     bindR (rd n confidence s) (\<lambda>c.
     bindR (rd n polarity s) (\<lambda>p.
     ok (Some (v, c, p))))))"

datatype op = Insert "32 word" "8 word" float32 "8 word"
  | Find "32 word"
  | Mark "32 word" float32 "8 word"

fun apply_op :: "op \<Rightarrow> state \<Rightarrow> state res" where
  "apply_op (Insert k v c p) s = rb_insert k v c p s"
| "apply_op (Find k) s = bindR (find' k s) (\<lambda>_. ok s)"
| "apply_op (Mark k c p) s = mark_measurement k c p s"

fun run :: "op list \<Rightarrow> state \<Rightarrow> state res" where
  "run [] s = ok s"
| "run (x # xs) s = bindR (apply_op x s) (run xs)"

fun insert_keys :: "op list \<Rightarrow> 32 word list" where
  "insert_keys [] = []"
| "insert_keys (Insert k v c p # xs) = k # insert_keys xs"
| "insert_keys (x # xs) = insert_keys xs"

definition holds_after :: "'a res \<Rightarrow> ('a \<Rightarrow> bool) \<Rightarrow> bool" where
  "holds_after r P = (case r of Some (Inr x) \<Rightarrow> P x | _ \<Rightarrow> False)"

definition fails_with :: "'a res \<Rightarrow> error \<Rightarrow> bool" where
  "fails_with r e = (case r of Some (Inl e') \<Rightarrow> e' = e | _ \<Rightarrow> False)"

text \<open>
  The properties of the specification, read off the store by following the pointers from
  a node: the height \<open>1 + max (height left) (height right)\<close> with \<open>height absent = 0\<close>,
  the balance of every node, the keys of a subtree from left to right, and the ordering
  of every node. They are \<open>None\<close> on a store where the pointers do not form a tree of
  live nodes.
\<close>

partial_function (option) tree_height :: "addr option \<Rightarrow> state \<Rightarrow> nat option" where
  "tree_height p s = (case p of None \<Rightarrow> Some 0 | Some a \<Rightarrow>
     (case heap s a of None \<Rightarrow> None | Some n \<Rightarrow>
        Option.bind (tree_height (left n) s) (\<lambda>hl.
        Option.bind (tree_height (right n) s) (\<lambda>hr. Some (1 + max hl hr)))))"

declare tree_height.simps [code]

partial_function (option) balanced :: "addr option \<Rightarrow> state \<Rightarrow> bool option" where
  "balanced p s = (case p of None \<Rightarrow> Some True | Some a \<Rightarrow>
     (case heap s a of None \<Rightarrow> None | Some n \<Rightarrow>
        Option.bind (tree_height (left n) s) (\<lambda>hl.
        Option.bind (tree_height (right n) s) (\<lambda>hr.
        Option.bind (balanced (left n) s) (\<lambda>bl.
        Option.bind (balanced (right n) s) (\<lambda>br.
        Some (bl \<and> br \<and> hl \<le> hr + 1 \<and> hr \<le> hl + 1)))))))"

declare balanced.simps [code]

partial_function (option) subtree_keys :: "addr option \<Rightarrow> state \<Rightarrow> (32 word list) option" where
  "subtree_keys p s = (case p of None \<Rightarrow> Some [] | Some a \<Rightarrow>
     (case heap s a of None \<Rightarrow> None | Some n \<Rightarrow>
        Option.bind (subtree_keys (left n) s) (\<lambda>ls.
        Option.bind (subtree_keys (right n) s) (\<lambda>rs. Some (ls @ key n # rs)))))"

declare subtree_keys.simps [code]

partial_function (option) bst_ordered :: "addr option \<Rightarrow> state \<Rightarrow> bool option" where
  "bst_ordered p s = (case p of None \<Rightarrow> Some True | Some a \<Rightarrow>
     (case heap s a of None \<Rightarrow> None | Some n \<Rightarrow>
        Option.bind (subtree_keys (left n) s) (\<lambda>ls.
        Option.bind (subtree_keys (right n) s) (\<lambda>rs.
        Option.bind (bst_ordered (left n) s) (\<lambda>bl.
        Option.bind (bst_ordered (right n) s) (\<lambda>br.
        Some (bl \<and> br \<and> list_all (\<lambda>k. k < key n) ls \<and> list_all (\<lambda>k. key n < k) rs)))))))"

declare bst_ordered.simps [code]

subsection \<open>The transform in the words of the specification\<close>

text \<open>
  The specification describes \<open>encode\<close> on sequences: the input is processed two bytes at
  a time, the pair \<open>(a, b)\<close> gives \<open>a XOR conjugate(b)\<close> when \<open>polarityIsA\<close> is true and
  \<open>conjugate(a) XOR b\<close> when it is false, and \<open>b\<close> is the padding byte \<open>0x00\<close> when \<open>a\<close> is
  the last byte of an input of odd length. \<open>spec_encode\<close> is that description, to be
  compared with what \<open>rift_encode\<close> writes.
\<close>

fun spec_encode :: "bool \<Rightarrow> 8 word list \<Rightarrow> 8 word list" where
  "spec_encode polarityIsA [] = []"
| "spec_encode polarityIsA [a] =
     [if polarityIsA then a XOR conjugate 0x00 else conjugate a XOR 0x00]"
| "spec_encode polarityIsA (a # b # rest) =
     (if polarityIsA then a XOR conjugate b else conjugate a XOR b) # spec_encode polarityIsA rest"


section \<open>Basic facts\<close>

lemma bindR_ok [simp]: "bindR (ok x) f = f x"
  by (simp add: bindR_def ok_def)

lemma bindR_fail [simp]: "bindR (fail e) f = fail e"
  by (simp add: bindR_def fail_def)

lemma ok_neq [simp]: "ok x \<noteq> fail e" "fail e \<noteq> ok x" "ok x \<noteq> None" "fail e \<noteq> None" "None \<noteq> ok x" "None \<noteq> fail e"
  by (simp_all add: ok_def fail_def)

lemma ok_inj [simp]: "(ok x = ok y) = (x = y)"
  by (simp add: ok_def)

lemma fail_inj [simp]: "(fail x = fail y) = (x = y)"
  by (simp add: fail_def)

lemma bindR_eq_ok: "(bindR m f = ok y) = (\<exists>x. m = ok x \<and> f x = ok y)"
  by (auto simp: bindR_def ok_def split: option.splits sum.splits)

lemma rd_Some [simp]: "heap s a = Some n \<Longrightarrow> rd (Some a) f s = ok (f n)"
  by (simp add: rd_def)

lemma wr_Some [simp]: "heap s a = Some n \<Longrightarrow> wr (Some a) g s = ok (s\<lparr>heap := (heap s)(a \<mapsto> g n)\<rparr>)"
  by (simp add: wr_def)

lemma rd_eq_ok: "(rd p f s = ok v) = (\<exists>a n. p = Some a \<and> heap s a = Some n \<and> v = f n)"
  by (auto simp: rd_def split: option.splits)

lemma ok_eq_Some: "(ok x = Some y) = (y = Inr x)" "(Some y = ok x) = (y = Inr x)"
  by (auto simp: ok_def)

lemma fail_eq_Some: "(fail e = Some y) = (y = Inl e)" "(Some y = fail e) = (y = Inl e)"
  by (auto simp: fail_def)

lemma bindR_eq_Some:
  "(bindR m f = Some y) = ((\<exists>e. m = fail e \<and> y = Inl e) \<or> (\<exists>x. m = ok x \<and> f x = Some y))"
  by (auto simp: bindR_def ok_def fail_def split: option.splits sum.splits)

lemma rd_None [simp]: "rd None f s = fail NullDeref"
  by (simp add: rd_def)

lemma rd_dangling [simp]: "heap s a = None \<Longrightarrow> rd (Some a) f s = fail Dangling"
  by (simp add: rd_def)

lemma find_loop_Some:
  "find_loop k p s = Some r \<Longrightarrow> r = Inr (Some a) \<Longrightarrow> \<exists>n. heap s a = Some n \<and> key n = k"
proof (induction arbitrary: a rule: find_loop.raw_induct [rotated 1, consumes 1])
  case (1 find_loop k cur s r)
  show ?case
  proof (cases cur)
    case None
    with 1(2,3) show ?thesis by (simp add: ok_eq_Some)
  next
    case (Some c)
    show ?thesis
    proof (cases "heap s c")
      case None
      with 1(2,3) Some show ?thesis by (simp add: fail_eq_Some)
    next
      case n: (Some n)
      show ?thesis
      proof (cases "k = key n")
        case True
        with 1(2,3) Some n show ?thesis by (simp add: ok_eq_Some)
      next
        case False
        with 1(2) Some n obtain nxt where "find_loop k nxt s = Some r"
          by (auto simp: bindR_eq_Some 1(3))
        from 1(1) [OF this 1(3)] show ?thesis .
      qed
    qed
  qed
qed

lemma find'_Some: "find' k s = ok (Some a) \<Longrightarrow> \<exists>n. heap s a = Some n \<and> key n = k"
  unfolding find'_def ok_def by (rule find_loop_Some) simp_all


lemma f32_le_not_less: "f32_le a b \<Longrightarrow> \<not> f32_less b a"
  by (cases a; cases b) auto

lemma bucket_mod: "unat (k AND 0xFF) = unat k mod 256" for k :: "32 word"
proof -
  have "k AND 0xFF = take_bit 8 k"
    by (simp add: take_bit_eq_mask mask_eq_exp_minus_1)
  then have "unat (k AND 0xFF) = take_bit 8 (unat k)"
    by (simp only: unsigned_take_bit_eq)
  then show ?thesis
    by (simp add: take_bit_eq_mod)
qed


lemma holds_afterE:
  assumes "holds_after r P"
  obtains x where "r = ok x" and "P x"
  using assms by (auto simp: holds_after_def ok_def split: option.splits sum.splits)

lemma holds_afterI: "r = ok x \<Longrightarrow> P x \<Longrightarrow> holds_after r P"
  by (simp add: holds_after_def ok_def)

section \<open>Executing the primitives on a live store\<close>

text \<open>
  The height field of a node is a byte; \<open>hw\<close> reads it (0 for \<open>NULL\<close>), \<open>sh\<close> is its value
  as a number, and \<open>newh\<close> is what \<open>update_height\<close> stores. On live nodes the helpers
  return, and what they return is given in closed form.
\<close>

definition lv :: "(addr \<Rightarrow> RBNode option) \<Rightarrow> addr option \<Rightarrow> bool" where
  "lv h p = (case p of None \<Rightarrow> True | Some a \<Rightarrow> h a \<noteq> None)"

definition hw :: "(addr \<Rightarrow> RBNode option) \<Rightarrow> addr option \<Rightarrow> 8 word" where
  "hw h p = (case p of None \<Rightarrow> 0 | Some a \<Rightarrow> (case h a of None \<Rightarrow> 0 | Some n \<Rightarrow> height n))"

definition sh :: "(addr \<Rightarrow> RBNode option) \<Rightarrow> addr option \<Rightarrow> nat" where
  "sh h p = unat (hw h p)"

definition newh :: "(addr \<Rightarrow> RBNode option) \<Rightarrow> RBNode \<Rightarrow> 8 word" where
  "newh h n = word_of_nat (Suc (max (sh h (left n)) (sh h (right n))))"

lemma lv_simps [simp]: "lv h None" "lv h (Some a) = (h a \<noteq> None)"
  by (simp_all add: lv_def)

lemma hw_simps [simp]: "hw h None = 0" "h a = Some n \<Longrightarrow> hw h (Some a) = height n"
  by (simp_all add: hw_def)

lemma sh_None [simp]: "sh h None = 0"
  by (simp add: sh_def)

lemma height'_exec: "lv (heap s) p \<Longrightarrow> height' p s = ok (hw (heap s) p)"
  by (cases p) (auto simp: height'_def)

lemma bf_exec:
  assumes "heap s a = Some n" "lv (heap s) (left n)" "lv (heap s) (right n)"
  shows "bf (Some a) s = ok (int (sh (heap s) (left n)) - int (sh (heap s) (right n)))"
  using assms by (simp add: bf_def height'_exec sh_def)

lemma bf_None [simp]: "bf None s = ok 0"
  by (simp add: bf_def)

lemma uint_less_unat: "(uint b < uint a) = (unat b < unat a)" for a b :: "8 word"
  by (simp only: word_less_def [symmetric] word_less_nat_alt)

lemma int_unat8: "int (unat a) = uint a" for a :: "8 word"
  by simp

lemma newh_int:
  "1 + (if uint b < uint a then uint a else uint b) = int (Suc (max (unat a) (unat b)))"
  for a b :: "8 word"
proof (cases "unat b < unat a")
  case True
  then have "max (unat a) (unat b) = unat a" by simp
  with True show ?thesis by (simp only: uint_less_unat if_True of_nat_Suc int_unat8)
next
  case False
  then have "max (unat a) (unat b) = unat b" by simp
  with False show ?thesis by (simp only: uint_less_unat if_False of_nat_Suc int_unat8)
qed

lemma newh_word:
  "word_of_int (1 + (if uint b < uint a then uint a else uint b)) = (word_of_nat (Suc (max (unat a) (unat b))) :: 8 word)"
  for a b :: "8 word"
  unfolding newh_int by (rule of_int_of_nat_eq)

lemma update_height_exec:
  assumes "heap s a = Some n" "lv (heap s) (left n)" "lv (heap s) (right n)"
  shows "update_height (Some a) s = ok (s\<lparr>heap := (heap s)(a \<mapsto> n\<lparr>height := newh (heap s) n\<rparr>)\<rparr>)"
proof -
  have "update_height (Some a) s =
      wr (Some a) (\<lambda>x. x\<lparr>height := word_of_int (1 + (if uint (hw (heap s) (right n)) < uint (hw (heap s) (left n))
          then uint (hw (heap s) (left n)) else uint (hw (heap s) (right n))))\<rparr>) s"
    using assms by (simp add: update_height_def height'_exec del: of_int_add)
  also have "\<dots> = ok (s\<lparr>heap := (heap s)(a \<mapsto> n\<lparr>height := newh (heap s) n\<rparr>)\<rparr>)"
    unfolding newh_word newh_def sh_def using assms(1) by simp
  finally show ?thesis .
qed

lemma update_height_None [simp]: "update_height None s = ok s"
  by (simp add: update_height_def)

lemma unat_newh:
  assumes "sh h (left n) < 255" "sh h (right n) < 255"
  shows "unat (newh h n) = Suc (max (sh h (left n)) (sh h (right n)))"
proof -
  have "Suc (max (sh h (left n)) (sh h (right n))) < 2 ^ LENGTH(8)"
    using assms by simp
  then show ?thesis
    unfolding newh_def unat_of_nat by (rule mod_less)
qed

subsection \<open>Writes as heap transformers, and the two rotations\<close>

text \<open>
  \<open>hupd p g\<close> is the heap after \<open>*p = g(*p)\<close>. A rotation is a fixed sequence of eight such
  writes; \<open>rr_heap\<close> and \<open>rl_heap\<close> are the heaps \<open>rotate_right\<close> and \<open>rotate_left\<close> leave.
\<close>

definition hupd :: "addr option \<Rightarrow> (RBNode \<Rightarrow> RBNode) \<Rightarrow> (addr \<Rightarrow> RBNode option) \<Rightarrow> addr \<Rightarrow> RBNode option" where
  "hupd p g h = (\<lambda>z. if p = Some z then map_option g (h z) else h z)"

lemma hupd_apply: "hupd p g h z = (if p = Some z then map_option g (h z) else h z)"
  by (simp add: hupd_def)

lemma wr_exec: "lv (heap s) p \<Longrightarrow> p \<noteq> None \<Longrightarrow> wr p g s = ok (s\<lparr>heap := hupd p g (heap s)\<rparr>)"
  by (cases p) (auto simp: wr_def hupd_def fun_eq_iff split: option.splits)

lemma wr_opt_exec:
  "lv (heap s) p \<Longrightarrow> (if p \<noteq> None then wr p g s else ok s) = ok (s\<lparr>heap := hupd p g (heap s)\<rparr>)"
  by (cases p) (auto simp: wr_def hupd_def fun_eq_iff split: option.splits)

lemma rd_exec: "heap s a = Some n \<Longrightarrow> rd (Some a) f s = ok (f n)"
  by simp

lemma update_height_hupd:
  assumes "heap s a = Some n" "lv (heap s) (left n)" "lv (heap s) (right n)"
  shows "update_height (Some a) s = ok (s\<lparr>heap := hupd (Some a) (\<lambda>m. m\<lparr>height := newh (heap s) n\<rparr>) (heap s)\<rparr>)"
proof -
  have "(heap s)(a \<mapsto> n\<lparr>height := newh (heap s) n\<rparr>) = hupd (Some a) (\<lambda>m. m\<lparr>height := newh (heap s) n\<rparr>) (heap s)"
    using assms(1) by (auto simp: hupd_def fun_eq_iff)
  with update_height_exec [OF assms] show ?thesis by simp
qed

lemma lv_hupd [simp]: "lv (hupd p g h) q = lv h q"
  by (cases q) (auto simp: hupd_def)

lemma hw_hupd: "(\<And>n. height (g n) = height n) \<Longrightarrow> hw (hupd p g h) q = hw h q"
  by (cases q) (auto simp: hw_def hupd_def split: option.splits)

lemma sh_hupd: "(\<And>n. height (g n) = height n) \<Longrightarrow> sh (hupd p g h) q = sh h q"
  by (simp add: sh_def hw_hupd)

definition rr_heap ::
  "addr \<Rightarrow> addr \<Rightarrow> RBNode \<Rightarrow> RBNode \<Rightarrow> 8 word \<Rightarrow> 8 word \<Rightarrow> (addr \<Rightarrow> RBNode option) \<Rightarrow> addr \<Rightarrow> RBNode option" where
  "rr_heap x y xn yn hx hy h =
     hupd (Some y) (\<lambda>n. n\<lparr>height := hy\<rparr>)
    (hupd (Some x) (\<lambda>n. n\<lparr>height := hx\<rparr>)
    (hupd (Some x) (\<lambda>n. n\<lparr>parent := Some y\<rparr>)
    (hupd (Some y) (\<lambda>n. n\<lparr>right := Some x\<rparr>)
    (hupd (parent xn) (\<lambda>n. if Some x = right n then n\<lparr>right := Some y\<rparr> else n\<lparr>left := Some y\<rparr>)
    (hupd (Some y) (\<lambda>n. n\<lparr>parent := parent xn\<rparr>)
    (hupd (right yn) (\<lambda>n. n\<lparr>parent := Some x\<rparr>)
    (hupd (Some x) (\<lambda>n. n\<lparr>left := right yn\<rparr>) h)))))))"

lemma rotate_right_exec:
  assumes xn: "heap s x = Some xn" and yl: "left xn = Some y" and yn: "heap s y = Some yn"
    and xy: "x \<noteq> y"
    and lvs: "lv (heap s) (right yn)" "lv (heap s) (parent xn)" "lv (heap s) (right xn)" "lv (heap s) (left yn)"
    and b: "right yn \<noteq> Some x" "right yn \<noteq> Some y"
    and p: "parent xn \<noteq> Some x" "parent xn \<noteq> Some y"
    and a: "left yn \<noteq> Some x"
  shows "rotate_right (Some x) s = ok (Some y,
     s\<lparr>heap := rr_heap x y xn yn
         (word_of_nat (Suc (max (sh (heap s) (right yn)) (sh (heap s) (right xn)))))
         (word_of_nat (Suc (max (sh (heap s) (left yn))
            (unat (word_of_nat (Suc (max (sh (heap s) (right yn)) (sh (heap s) (right xn)))) :: 8 word)))))
         (heap s),
       rb_root := (if parent xn = None then Some y else rb_root s)\<rparr>)"
proof -
  let ?G = "\<lambda>n. if Some x = right n then n\<lparr>right := Some y\<rparr> else n\<lparr>left := Some y\<rparr>"
  let ?hx = "word_of_nat (Suc (max (sh (heap s) (right yn)) (sh (heap s) (right xn)))) :: 8 word"
  let ?hy = "word_of_nat (Suc (max (sh (heap s) (left yn)) (unat ?hx))) :: 8 word"
  define s1 where "s1 = s\<lparr>heap := hupd (Some x) (\<lambda>n. n\<lparr>left := right yn\<rparr>) (heap s)\<rparr>"
  define s2 where "s2 = s1\<lparr>heap := hupd (right yn) (\<lambda>n. n\<lparr>parent := Some x\<rparr>) (heap s1)\<rparr>"
  define s3 where "s3 = s2\<lparr>heap := hupd (Some y) (\<lambda>n. n\<lparr>parent := parent xn\<rparr>) (heap s2)\<rparr>"
  define s4 where "s4 = s3\<lparr>heap := hupd (parent xn) ?G (heap s3),
      rb_root := (if parent xn = None then Some y else rb_root s)\<rparr>"
  define s5 where "s5 = s4\<lparr>heap := hupd (Some y) (\<lambda>n. n\<lparr>right := Some x\<rparr>) (heap s4)\<rparr>"
  define s6 where "s6 = s5\<lparr>heap := hupd (Some x) (\<lambda>n. n\<lparr>parent := Some y\<rparr>) (heap s5)\<rparr>"
  define s7 where "s7 = s6\<lparr>heap := hupd (Some x) (\<lambda>n. n\<lparr>height := ?hx\<rparr>) (heap s6)\<rparr>"
  define s8 where "s8 = s7\<lparr>heap := hupd (Some y) (\<lambda>n. n\<lparr>height := ?hy\<rparr>) (heap s7)\<rparr>"
  have x1: "heap s1 x = Some (xn\<lparr>left := right yn\<rparr>)" and y1: "heap s1 y = Some yn"
    using xn yn xy by (simp_all add: s1_def hupd_apply)
  have e1: "wr (Some x) (\<lambda>n. n\<lparr>left := right yn\<rparr>) s = ok s1"
    using xn by (simp add: wr_exec s1_def)
  have e2: "(if right yn \<noteq> None then wr (right yn) (\<lambda>n. n\<lparr>parent := Some x\<rparr>) s1 else ok s1) = ok s2"
    unfolding s2_def by (rule wr_opt_exec) (simp add: s1_def lvs(1))
  have x2: "heap s2 x = Some (xn\<lparr>left := right yn\<rparr>)" and y2: "heap s2 y = Some yn"
    using x1 y1 b by (simp_all add: s2_def hupd_apply)
  have e3: "wr (Some y) (\<lambda>n. n\<lparr>parent := parent xn\<rparr>) s2 = ok s3"
    using y2 by (simp add: wr_exec s3_def)
  have x3: "heap s3 x = Some (xn\<lparr>left := right yn\<rparr>)" and y3: "heap s3 y = Some (yn\<lparr>parent := parent xn\<rparr>)"
    using x2 y2 xy by (simp_all add: s3_def hupd_apply)
  have lv3: "lv (heap s3) (parent xn)"
    using lvs(2) by (simp add: s3_def s2_def s1_def)
  have e4: "(if parent xn \<noteq> None then
              bindR (rd (parent xn) right s3) (\<lambda>pr.
              if Some x = pr then wr (parent xn) (\<lambda>n. n\<lparr>right := Some y\<rparr>) s3
              else wr (parent xn) (\<lambda>n. n\<lparr>left := Some y\<rparr>) s3)
            else ok (s3\<lparr>rb_root := Some y\<rparr>)) = ok s4"
  proof (cases "parent xn")
    case None
    then show ?thesis by (simp add: s4_def hupd_def)
  next
    case (Some q)
    with lv3 obtain qn where qn: "heap s3 q = Some qn" by auto
    have r3: "rb_root s3 = rb_root s"
      by (simp add: s3_def s2_def s1_def)
    have "(heap s3)(q \<mapsto> ?G qn) = hupd (Some q) ?G (heap s3)"
      using qn by (auto simp: hupd_def fun_eq_iff)
    then have "s4 = s3\<lparr>heap := (heap s3)(q \<mapsto> ?G qn)\<rparr>"
      using Some r3 by (intro state.equality) (simp_all add: s4_def)
    with Some qn show ?thesis
      by (cases "Some x = right qn") simp_all
  qed
  have x4: "heap s4 x = Some (xn\<lparr>left := right yn\<rparr>)" and y4: "heap s4 y = Some (yn\<lparr>parent := parent xn\<rparr>)"
    using x3 y3 p by (simp_all add: s4_def hupd_apply)
  have e5: "wr (Some y) (\<lambda>n. n\<lparr>right := Some x\<rparr>) s4 = ok s5"
    using y4 by (simp add: wr_exec s5_def)
  have x5: "heap s5 x = Some (xn\<lparr>left := right yn\<rparr>)"
    and y5: "heap s5 y = Some (yn\<lparr>parent := parent xn, right := Some x\<rparr>)"
    using x4 y4 xy by (simp_all add: s5_def hupd_apply)
  have e6: "wr (Some x) (\<lambda>n. n\<lparr>parent := Some y\<rparr>) s5 = ok s6"
    using x5 by (simp add: wr_exec s6_def)
  have x6: "heap s6 x = Some (xn\<lparr>left := right yn, parent := Some y\<rparr>)"
    and y6: "heap s6 y = Some (yn\<lparr>parent := parent xn, right := Some x\<rparr>)"
    using x5 y5 xy by (simp_all add: s6_def hupd_apply)
  have h6: "heap s6 = hupd (Some x) (\<lambda>n. n\<lparr>parent := Some y\<rparr>)
    (hupd (Some y) (\<lambda>n. n\<lparr>right := Some x\<rparr>)
    (hupd (parent xn) ?G
    (hupd (Some y) (\<lambda>n. n\<lparr>parent := parent xn\<rparr>)
    (hupd (right yn) (\<lambda>n. n\<lparr>parent := Some x\<rparr>)
    (hupd (Some x) (\<lambda>n. n\<lparr>left := right yn\<rparr>) (heap s))))))"
    by (simp add: s6_def s5_def s4_def s3_def s2_def s1_def)
  have sh6: "sh (heap s6) q = sh (heap s) q" for q
    unfolding h6 by (simp add: sh_hupd)
  have lv6: "lv (heap s6) q = lv (heap s) q" for q
    unfolding h6 by simp
  have "newh (heap s6) (xn\<lparr>left := right yn, parent := Some y\<rparr>) = ?hx"
    by (simp add: newh_def sh6)
  then have e7: "update_height (Some x) s6 = ok s7"
    using update_height_hupd [OF x6] lvs by (simp add: lv6 s7_def)
  have x7: "heap s7 x = Some (xn\<lparr>left := right yn, parent := Some y, height := ?hx\<rparr>)"
    and y7: "heap s7 y = Some (yn\<lparr>parent := parent xn, right := Some x\<rparr>)"
    using x6 y6 xy by (simp_all add: s7_def hupd_apply)
  have lv7: "lv (heap s7) q = lv (heap s) q" for q
    by (simp add: s7_def lv6)
  have sh7x: "sh (heap s7) (Some x) = unat ?hx"
    using x7 by (simp add: sh_def)
  have sh7a: "sh (heap s7) (left yn) = sh (heap s) (left yn)"
  proof (cases "left yn")
    case None
    then show ?thesis by simp
  next
    case (Some q)
    with a have "q \<noteq> x" by simp
    then have "heap s7 q = heap s6 q" by (simp add: s7_def hupd_apply)
    then have "sh (heap s7) (Some q) = sh (heap s6) (Some q)" by (simp add: sh_def hw_def)
    with Some show ?thesis by (simp add: sh6)
  qed
  have "newh (heap s7) (yn\<lparr>parent := parent xn, right := Some x\<rparr>) = ?hy"
    by (simp add: newh_def sh7x sh7a)
  then have e8: "update_height (Some y) s7 = ok s8"
    using update_height_hupd [OF y7] lvs x7 by (simp add: lv7 s8_def)
  have r0: "rd (Some x) left s = ok (Some y)" and r1: "rd (Some y) right s = ok (right yn)"
    and r2: "rd (Some y) right s1 = ok (right yn)" and r3: "rd (Some x) parent s2 = ok (parent xn)"
    and r4: "rd (Some x) parent s3 = ok (parent xn)"
    using xn yl yn y1 x2 x3 by simp_all
  have "rotate_right (Some x) s = ok (Some y, s8)"
    unfolding rotate_right_def
    by (simp only: r0 r1 r2 r3 r4 e1 e2 e3 e4 e5 e6 e7 e8 bindR_ok option.distinct if_False)
  moreover have "s8 = s\<lparr>heap := rr_heap x y xn yn ?hx ?hy (heap s),
       rb_root := (if parent xn = None then Some y else rb_root s)\<rparr>"
    by (simp add: rr_heap_def s8_def s7_def s6_def s5_def s4_def s3_def s2_def s1_def)
  ultimately show ?thesis by simp
qed

definition rl_heap ::
  "addr \<Rightarrow> addr \<Rightarrow> RBNode \<Rightarrow> RBNode \<Rightarrow> 8 word \<Rightarrow> 8 word \<Rightarrow> (addr \<Rightarrow> RBNode option) \<Rightarrow> addr \<Rightarrow> RBNode option" where
  "rl_heap x y xn yn hx hy h =
     hupd (Some y) (\<lambda>n. n\<lparr>height := hy\<rparr>)
    (hupd (Some x) (\<lambda>n. n\<lparr>height := hx\<rparr>)
    (hupd (Some x) (\<lambda>n. n\<lparr>parent := Some y\<rparr>)
    (hupd (Some y) (\<lambda>n. n\<lparr>left := Some x\<rparr>)
    (hupd (parent xn) (\<lambda>n. if Some x = left n then n\<lparr>left := Some y\<rparr> else n\<lparr>right := Some y\<rparr>)
    (hupd (Some y) (\<lambda>n. n\<lparr>parent := parent xn\<rparr>)
    (hupd (left yn) (\<lambda>n. n\<lparr>parent := Some x\<rparr>)
    (hupd (Some x) (\<lambda>n. n\<lparr>right := left yn\<rparr>) h)))))))"

lemma rotate_left_exec:
  assumes xn: "heap s x = Some xn" and yl: "right xn = Some y" and yn: "heap s y = Some yn"
    and xy: "x \<noteq> y"
    and lvs: "lv (heap s) (left yn)" "lv (heap s) (parent xn)" "lv (heap s) (left xn)" "lv (heap s) (right yn)"
    and b: "left yn \<noteq> Some x" "left yn \<noteq> Some y"
    and p: "parent xn \<noteq> Some x" "parent xn \<noteq> Some y"
    and a: "right yn \<noteq> Some x"
  shows "rotate_left (Some x) s = ok (Some y,
     s\<lparr>heap := rl_heap x y xn yn
         (word_of_nat (Suc (max (sh (heap s) (left xn)) (sh (heap s) (left yn)))))
         (word_of_nat (Suc (max
            (unat (word_of_nat (Suc (max (sh (heap s) (left xn)) (sh (heap s) (left yn)))) :: 8 word))
            (sh (heap s) (right yn)))))
         (heap s),
       rb_root := (if parent xn = None then Some y else rb_root s)\<rparr>)"
proof -
  let ?G = "\<lambda>n. if Some x = left n then n\<lparr>left := Some y\<rparr> else n\<lparr>right := Some y\<rparr>"
  let ?hx = "word_of_nat (Suc (max (sh (heap s) (left xn)) (sh (heap s) (left yn)))) :: 8 word"
  let ?hy = "word_of_nat (Suc (max (unat ?hx) (sh (heap s) (right yn)))) :: 8 word"
  define s1 where "s1 = s\<lparr>heap := hupd (Some x) (\<lambda>n. n\<lparr>right := left yn\<rparr>) (heap s)\<rparr>"
  define s2 where "s2 = s1\<lparr>heap := hupd (left yn) (\<lambda>n. n\<lparr>parent := Some x\<rparr>) (heap s1)\<rparr>"
  define s3 where "s3 = s2\<lparr>heap := hupd (Some y) (\<lambda>n. n\<lparr>parent := parent xn\<rparr>) (heap s2)\<rparr>"
  define s4 where "s4 = s3\<lparr>heap := hupd (parent xn) ?G (heap s3),
      rb_root := (if parent xn = None then Some y else rb_root s)\<rparr>"
  define s5 where "s5 = s4\<lparr>heap := hupd (Some y) (\<lambda>n. n\<lparr>left := Some x\<rparr>) (heap s4)\<rparr>"
  define s6 where "s6 = s5\<lparr>heap := hupd (Some x) (\<lambda>n. n\<lparr>parent := Some y\<rparr>) (heap s5)\<rparr>"
  define s7 where "s7 = s6\<lparr>heap := hupd (Some x) (\<lambda>n. n\<lparr>height := ?hx\<rparr>) (heap s6)\<rparr>"
  define s8 where "s8 = s7\<lparr>heap := hupd (Some y) (\<lambda>n. n\<lparr>height := ?hy\<rparr>) (heap s7)\<rparr>"
  have x1: "heap s1 x = Some (xn\<lparr>right := left yn\<rparr>)" and y1: "heap s1 y = Some yn"
    using xn yn xy by (simp_all add: s1_def hupd_apply)
  have e1: "wr (Some x) (\<lambda>n. n\<lparr>right := left yn\<rparr>) s = ok s1"
    using xn by (simp add: wr_exec s1_def)
  have e2: "(if left yn \<noteq> None then wr (left yn) (\<lambda>n. n\<lparr>parent := Some x\<rparr>) s1 else ok s1) = ok s2"
    unfolding s2_def by (rule wr_opt_exec) (simp add: s1_def lvs(1))
  have x2: "heap s2 x = Some (xn\<lparr>right := left yn\<rparr>)" and y2: "heap s2 y = Some yn"
    using x1 y1 b by (simp_all add: s2_def hupd_apply)
  have e3: "wr (Some y) (\<lambda>n. n\<lparr>parent := parent xn\<rparr>) s2 = ok s3"
    using y2 by (simp add: wr_exec s3_def)
  have x3: "heap s3 x = Some (xn\<lparr>right := left yn\<rparr>)" and y3: "heap s3 y = Some (yn\<lparr>parent := parent xn\<rparr>)"
    using x2 y2 xy by (simp_all add: s3_def hupd_apply)
  have lv3: "lv (heap s3) (parent xn)"
    using lvs(2) by (simp add: s3_def s2_def s1_def)
  have e4: "(if parent xn \<noteq> None then
              bindR (rd (parent xn) left s3) (\<lambda>pr.
              if Some x = pr then wr (parent xn) (\<lambda>n. n\<lparr>left := Some y\<rparr>) s3
              else wr (parent xn) (\<lambda>n. n\<lparr>right := Some y\<rparr>) s3)
            else ok (s3\<lparr>rb_root := Some y\<rparr>)) = ok s4"
  proof (cases "parent xn")
    case None
    then show ?thesis by (simp add: s4_def hupd_def)
  next
    case (Some q)
    with lv3 obtain qn where qn: "heap s3 q = Some qn" by auto
    have r3: "rb_root s3 = rb_root s"
      by (simp add: s3_def s2_def s1_def)
    have "(heap s3)(q \<mapsto> ?G qn) = hupd (Some q) ?G (heap s3)"
      using qn by (auto simp: hupd_def fun_eq_iff)
    then have "s4 = s3\<lparr>heap := (heap s3)(q \<mapsto> ?G qn)\<rparr>"
      using Some r3 by (intro state.equality) (simp_all add: s4_def)
    with Some qn show ?thesis
      by (cases "Some x = left qn") simp_all
  qed
  have x4: "heap s4 x = Some (xn\<lparr>right := left yn\<rparr>)" and y4: "heap s4 y = Some (yn\<lparr>parent := parent xn\<rparr>)"
    using x3 y3 p by (simp_all add: s4_def hupd_apply)
  have e5: "wr (Some y) (\<lambda>n. n\<lparr>left := Some x\<rparr>) s4 = ok s5"
    using y4 by (simp add: wr_exec s5_def)
  have x5: "heap s5 x = Some (xn\<lparr>right := left yn\<rparr>)"
    and y5: "heap s5 y = Some (yn\<lparr>parent := parent xn, left := Some x\<rparr>)"
    using x4 y4 xy by (simp_all add: s5_def hupd_apply)
  have e6: "wr (Some x) (\<lambda>n. n\<lparr>parent := Some y\<rparr>) s5 = ok s6"
    using x5 by (simp add: wr_exec s6_def)
  have x6: "heap s6 x = Some (xn\<lparr>right := left yn, parent := Some y\<rparr>)"
    and y6: "heap s6 y = Some (yn\<lparr>parent := parent xn, left := Some x\<rparr>)"
    using x5 y5 xy by (simp_all add: s6_def hupd_apply)
  have h6: "heap s6 = hupd (Some x) (\<lambda>n. n\<lparr>parent := Some y\<rparr>)
    (hupd (Some y) (\<lambda>n. n\<lparr>left := Some x\<rparr>)
    (hupd (parent xn) ?G
    (hupd (Some y) (\<lambda>n. n\<lparr>parent := parent xn\<rparr>)
    (hupd (left yn) (\<lambda>n. n\<lparr>parent := Some x\<rparr>)
    (hupd (Some x) (\<lambda>n. n\<lparr>right := left yn\<rparr>) (heap s))))))"
    by (simp add: s6_def s5_def s4_def s3_def s2_def s1_def)
  have sh6: "sh (heap s6) q = sh (heap s) q" for q
    unfolding h6 by (simp add: sh_hupd)
  have lv6: "lv (heap s6) q = lv (heap s) q" for q
    unfolding h6 by simp
  have "newh (heap s6) (xn\<lparr>right := left yn, parent := Some y\<rparr>) = ?hx"
    by (simp add: newh_def sh6)
  then have e7: "update_height (Some x) s6 = ok s7"
    using update_height_hupd [OF x6] lvs by (simp add: lv6 s7_def)
  have x7: "heap s7 x = Some (xn\<lparr>right := left yn, parent := Some y, height := ?hx\<rparr>)"
    and y7: "heap s7 y = Some (yn\<lparr>parent := parent xn, left := Some x\<rparr>)"
    using x6 y6 xy by (simp_all add: s7_def hupd_apply)
  have lv7: "lv (heap s7) q = lv (heap s) q" for q
    by (simp add: s7_def lv6)
  have sh7x: "sh (heap s7) (Some x) = unat ?hx"
    using x7 by (simp add: sh_def)
  have sh7a: "sh (heap s7) (right yn) = sh (heap s) (right yn)"
  proof (cases "right yn")
    case None
    then show ?thesis by simp
  next
    case (Some q)
    with a have "q \<noteq> x" by simp
    then have "heap s7 q = heap s6 q" by (simp add: s7_def hupd_apply)
    then have "sh (heap s7) (Some q) = sh (heap s6) (Some q)" by (simp add: sh_def hw_def)
    with Some show ?thesis by (simp add: sh6)
  qed
  have "newh (heap s7) (yn\<lparr>parent := parent xn, left := Some x\<rparr>) = ?hy"
    by (simp add: newh_def sh7x sh7a)
  then have e8: "update_height (Some y) s7 = ok s8"
    using update_height_hupd [OF y7] lvs x7 by (simp add: lv7 s8_def)
  have r0: "rd (Some x) right s = ok (Some y)" and r1: "rd (Some y) left s = ok (left yn)"
    and r2: "rd (Some y) left s1 = ok (left yn)" and r3: "rd (Some x) parent s2 = ok (parent xn)"
    and r4: "rd (Some x) parent s3 = ok (parent xn)"
    using xn yl yn y1 x2 x3 by simp_all
  have "rotate_left (Some x) s = ok (Some y, s8)"
    unfolding rotate_left_def
    by (simp only: r0 r1 r2 r3 r4 e1 e2 e3 e4 e5 e6 e7 e8 bindR_ok option.distinct if_False)
  moreover have "s8 = s\<lparr>heap := rl_heap x y xn yn ?hx ?hy (heap s),
       rb_root := (if parent xn = None then Some y else rb_root s)\<rparr>"
    by (simp add: rl_heap_def s8_def s7_def s6_def s5_def s4_def s3_def s2_def s1_def)
  ultimately show ?thesis by simp
qed

section \<open>Trees in the store\<close>

text \<open>
  The shape of the pointer structure is an \<open>atree\<close> of addresses. \<open>ht h par t\<close> says that
  the heap \<open>h\<close> holds \<open>t\<close>: every node is live, its \<open>left\<close> and \<open>right\<close> point to the roots of
  its subtrees and its \<open>parent\<close> to the node above (\<open>par\<close> for the root). A position inside
  a tree is a subtree and the list of frames above it, innermost first; \<open>hp\<close> is \<open>ht\<close> for
  the frames.
\<close>

datatype atree = Leaf | Node atree addr atree

fun rootp :: "atree \<Rightarrow> addr option" where
  "rootp Leaf = None"
| "rootp (Node l a r) = Some a"

fun addrs :: "atree \<Rightarrow> addr list" where
  "addrs Leaf = []"
| "addrs (Node l a r) = addrs l @ a # addrs r"

fun ht :: "(addr \<Rightarrow> RBNode option) \<Rightarrow> addr option \<Rightarrow> atree \<Rightarrow> bool" where
  "ht h par Leaf = True"
| "ht h par (Node l a r) = (case h a of None \<Rightarrow> False
     | Some n \<Rightarrow> parent n = par \<and> left n = rootp l \<and> right n = rootp r
         \<and> ht h (Some a) l \<and> ht h (Some a) r)"

datatype frame = LeftOf addr atree | RightOf addr atree

fun plug :: "atree \<Rightarrow> frame list \<Rightarrow> atree" where
  "plug t [] = t"
| "plug t (LeftOf a r # fs) = plug (Node t a r) fs"
| "plug t (RightOf a l # fs) = plug (Node l a t) fs"

fun fpar :: "frame list \<Rightarrow> addr option" where
  "fpar [] = None"
| "fpar (LeftOf a r # fs) = Some a"
| "fpar (RightOf a l # fs) = Some a"

fun ftop :: "frame list \<Rightarrow> addr option \<Rightarrow> addr option" where
  "ftop [] c = c"
| "ftop (LeftOf a r # fs) c = ftop fs (Some a)"
| "ftop (RightOf a l # fs) c = ftop fs (Some a)"

fun hp :: "(addr \<Rightarrow> RBNode option) \<Rightarrow> addr option \<Rightarrow> frame list \<Rightarrow> bool" where
  "hp h c [] = True"
| "hp h c (LeftOf a r # fs) = (case h a of None \<Rightarrow> False
     | Some n \<Rightarrow> parent n = fpar fs \<and> left n = c \<and> right n = rootp r
         \<and> ht h (Some a) r \<and> hp h (Some a) fs)"
| "hp h c (RightOf a l # fs) = (case h a of None \<Rightarrow> False
     | Some n \<Rightarrow> parent n = fpar fs \<and> left n = rootp l \<and> right n = c
         \<and> ht h (Some a) l \<and> hp h (Some a) fs)"

fun fpre :: "frame list \<Rightarrow> addr list" where
  "fpre [] = []"
| "fpre (LeftOf a r # fs) = fpre fs"
| "fpre (RightOf a l # fs) = fpre fs @ addrs l @ [a]"

fun fpost :: "frame list \<Rightarrow> addr list" where
  "fpost [] = []"
| "fpost (LeftOf a r # fs) = a # addrs r @ fpost fs"
| "fpost (RightOf a l # fs) = fpost fs"

lemma addrs_plug: "addrs (plug t fs) = fpre fs @ addrs t @ fpost fs"
  by (induction t fs rule: plug.induct) simp_all

lemma rootp_plug: "rootp (plug t fs) = ftop fs (rootp t)"
  by (induction t fs rule: plug.induct) simp_all

lemma ht_plug: "ht h None (plug t fs) = (ht h (fpar fs) t \<and> hp h (rootp t) fs)"
proof (induction t fs rule: plug.induct)
  case (1 t)
  then show ?case by simp
next
  case (2 t a r fs)
  then show ?case by (auto split: option.splits)
next
  case (3 t a l fs)
  then show ?case by (auto split: option.splits)
qed

definition lnk :: "(addr \<Rightarrow> RBNode option) \<Rightarrow> addr \<Rightarrow> (addr option \<times> addr option \<times> addr option) option" where
  "lnk h a = map_option (\<lambda>n. (left n, right n, parent n)) (h a)"

lemma ht_cong: "(\<And>a. a \<in> set (addrs t) \<Longrightarrow> lnk h' a = lnk h a) \<Longrightarrow> ht h' par t = ht h par t"
proof (induction t arbitrary: par)
  case Leaf
  then show ?case by simp
next
  case (Node l a r)
  have "lnk h' a = lnk h a" by (rule Node.prems) simp
  moreover have "ht h' (Some a) l = ht h (Some a) l"
    by (rule Node.IH) (simp add: Node.prems)
  moreover have "ht h' (Some a) r = ht h (Some a) r"
    by (rule Node.IH) (simp add: Node.prems)
  ultimately show ?case
    by (auto simp: lnk_def split: option.splits)
qed

lemma hp_cong: "(\<And>a. a \<in> set (fpre fs @ fpost fs) \<Longrightarrow> lnk h' a = lnk h a) \<Longrightarrow> hp h' c fs = hp h c fs"
proof (induction fs arbitrary: c)
  case Nil
  then show ?case by simp
next
  case (Cons f fs)
  show ?case
  proof (cases f)
    case (LeftOf a r)
    have "lnk h' a = lnk h a" by (rule Cons.prems) (simp add: LeftOf)
    moreover have "ht h' (Some a) r = ht h (Some a) r"
      by (rule ht_cong) (simp add: Cons.prems LeftOf)
    moreover have "hp h' (Some a) fs = hp h (Some a) fs"
      by (rule Cons.IH) (auto simp add: Cons.prems LeftOf)
    ultimately show ?thesis
      by (auto simp: lnk_def LeftOf split: option.splits)
  next
    case (RightOf a l)
    have "lnk h' a = lnk h a" by (rule Cons.prems) (simp add: RightOf)
    moreover have "ht h' (Some a) l = ht h (Some a) l"
      by (rule ht_cong) (simp add: Cons.prems RightOf)
    moreover have "hp h' (Some a) fs = hp h (Some a) fs"
      by (rule Cons.IH) (auto simp add: Cons.prems RightOf)
    ultimately show ?thesis
      by (auto simp: lnk_def RightOf split: option.splits)
  qed
qed

text \<open>Liveness of everything a tree mentions.\<close>

lemma ht_live: "ht h par t \<Longrightarrow> a \<in> set (addrs t) \<Longrightarrow> h a \<noteq> None"
  by (induction t arbitrary: par) (auto split: option.splits)

lemma ht_lv_root: "ht h par t \<Longrightarrow> lv h (rootp t)"
  by (cases t) (auto split: option.splits)

lemma hp_live: "hp h c fs \<Longrightarrow> a \<in> set (fpre fs @ fpost fs) \<Longrightarrow> h a \<noteq> None"
proof (induction fs arbitrary: c)
  case Nil
  then show ?case by simp
next
  case (Cons f fs)
  then show ?case
    by (cases f) (auto split: option.splits dest: ht_live)
qed

lemma hp_lv_fpar: "hp h c fs \<Longrightarrow> lv h (fpar fs)"
  by (cases fs rule: fpar.cases) (auto split: option.splits)

lemma fpar_in: "fpar fs = Some p \<Longrightarrow> p \<in> set (fpre fs @ fpost fs)"
  by (cases fs rule: fpar.cases) auto

lemma rootp_in: "rootp t = Some a \<Longrightarrow> a \<in> set (addrs t)"
  by (cases t) auto

subsection \<open>Payloads, and the heap of a rotation node by node\<close>

definition pl :: "(addr \<Rightarrow> RBNode option) \<Rightarrow> addr \<Rightarrow> (32 word \<times> 8 word \<times> 8 word \<times> float32 \<times> 8 word) option" where
  "pl h a = map_option (\<lambda>n. (key n, val n, polarity n, confidence n, color n)) (h a)"

lemma pl_hupd:
  "(\<And>n. key (g n) = key n \<and> val (g n) = val n \<and> polarity (g n) = polarity n
      \<and> confidence (g n) = confidence n \<and> color (g n) = color n) \<Longrightarrow> pl (hupd p g h) z = pl h z"
  by (cases "h z") (auto simp: pl_def hupd_def)

lemma rr_heap_x:
  "h x = Some xn \<Longrightarrow> x \<noteq> y \<Longrightarrow> right yn \<noteq> Some x \<Longrightarrow> parent xn \<noteq> Some x \<Longrightarrow>
   rr_heap x y xn yn hx hy h x = Some (xn\<lparr>left := right yn, parent := Some y, height := hx\<rparr>)"
  by (simp add: rr_heap_def hupd_apply)

lemma rr_heap_y:
  "h y = Some yn \<Longrightarrow> x \<noteq> y \<Longrightarrow> right yn \<noteq> Some y \<Longrightarrow> parent xn \<noteq> Some y \<Longrightarrow>
   rr_heap x y xn yn hx hy h y = Some (yn\<lparr>right := Some x, parent := parent xn, height := hy\<rparr>)"
  by (simp add: rr_heap_def hupd_apply)

lemma rr_heap_other:
  "z \<noteq> x \<Longrightarrow> z \<noteq> y \<Longrightarrow> rr_heap x y xn yn hx hy h z =
     (if parent xn = Some z
      then map_option (\<lambda>n. if Some x = right n then n\<lparr>right := Some y\<rparr> else n\<lparr>left := Some y\<rparr>)
             (if right yn = Some z then map_option (\<lambda>n. n\<lparr>parent := Some x\<rparr>) (h z) else h z)
      else if right yn = Some z then map_option (\<lambda>n. n\<lparr>parent := Some x\<rparr>) (h z) else h z)"
  by (simp add: rr_heap_def hupd_apply)

lemma rr_heap_pl: "pl (rr_heap x y xn yn hx hy h) z = pl h z"
  by (simp add: rr_heap_def pl_hupd)

lemma rr_heap_hw: "z \<noteq> x \<Longrightarrow> z \<noteq> y \<Longrightarrow> hw (rr_heap x y xn yn hx hy h) (Some z) = hw h (Some z)"
  by (cases "h z") (auto simp: rr_heap_other hw_def)

lemma rr_heap_None: "(rr_heap x y xn yn hx hy h z = None) = (h z = None)"
  by (simp add: rr_heap_def hupd_apply)

lemma rl_heap_x:
  "h x = Some xn \<Longrightarrow> x \<noteq> y \<Longrightarrow> left yn \<noteq> Some x \<Longrightarrow> parent xn \<noteq> Some x \<Longrightarrow>
   rl_heap x y xn yn hx hy h x = Some (xn\<lparr>right := left yn, parent := Some y, height := hx\<rparr>)"
  by (simp add: rl_heap_def hupd_apply)

lemma rl_heap_y:
  "h y = Some yn \<Longrightarrow> x \<noteq> y \<Longrightarrow> left yn \<noteq> Some y \<Longrightarrow> parent xn \<noteq> Some y \<Longrightarrow>
   rl_heap x y xn yn hx hy h y = Some (yn\<lparr>left := Some x, parent := parent xn, height := hy\<rparr>)"
  by (simp add: rl_heap_def hupd_apply)

lemma rl_heap_other:
  "z \<noteq> x \<Longrightarrow> z \<noteq> y \<Longrightarrow> rl_heap x y xn yn hx hy h z =
     (if parent xn = Some z
      then map_option (\<lambda>n. if Some x = left n then n\<lparr>left := Some y\<rparr> else n\<lparr>right := Some y\<rparr>)
             (if left yn = Some z then map_option (\<lambda>n. n\<lparr>parent := Some x\<rparr>) (h z) else h z)
      else if left yn = Some z then map_option (\<lambda>n. n\<lparr>parent := Some x\<rparr>) (h z) else h z)"
  by (simp add: rl_heap_def hupd_apply)

lemma rl_heap_pl: "pl (rl_heap x y xn yn hx hy h) z = pl h z"
  by (simp add: rl_heap_def pl_hupd)

lemma rl_heap_hw: "z \<noteq> x \<Longrightarrow> z \<noteq> y \<Longrightarrow> hw (rl_heap x y xn yn hx hy h) (Some z) = hw h (Some z)"
  by (cases "h z") (auto simp: rl_heap_other hw_def)

lemma rl_heap_None: "(rl_heap x y xn yn hx hy h z = None) = (h z = None)"
  by (simp add: rl_heap_def hupd_apply)

text \<open>Re-parenting a subtree and replacing the child pointer at the bottom of a path.\<close>

lemma ht_reparent:
  assumes "ht h par t" and "distinct (addrs t)"
    and "\<And>a. a \<in> set (addrs t) \<Longrightarrow> Some a \<noteq> rootp t \<Longrightarrow> lnk h' a = lnk h a"
    and "\<And>a. rootp t = Some a \<Longrightarrow> lnk h' a = map_option (\<lambda>(l, r, p). (l, r, par')) (lnk h a)"
  shows "ht h' par' t"
proof (cases t)
  case Leaf
  then show ?thesis by simp
next
  case (Node l a r)
  from assms(2) Node have al: "a \<notin> set (addrs l)" and ar: "a \<notin> set (addrs r)" by auto
  have "ht h' (Some a) l = ht h (Some a) l"
    using al by (intro ht_cong assms(3)) (auto simp: Node)
  moreover have "ht h' (Some a) r = ht h (Some a) r"
    using ar by (intro ht_cong assms(3)) (auto simp: Node)
  moreover have "lnk h' a = map_option (\<lambda>(l, r, p). (l, r, par')) (lnk h a)"
    by (rule assms(4)) (simp add: Node)
  ultimately show ?thesis
    using assms(1) by (auto simp: Node lnk_def split: option.splits)
qed

lemma hp_rechild_left:
  assumes "hp h c (LeftOf a r # fs)" and "a \<notin> set (addrs r @ fpre fs @ fpost fs)"
    and "\<And>b. b \<in> set (addrs r @ fpre fs @ fpost fs) \<Longrightarrow> lnk h' b = lnk h b"
    and "lnk h' a = map_option (\<lambda>(l, r, p). (c', r, p)) (lnk h a)"
  shows "hp h' c' (LeftOf a r # fs)"
proof -
  have "ht h' (Some a) r = ht h (Some a) r"
    by (intro ht_cong assms(3)) simp
  moreover have "hp h' (Some a) fs = hp h (Some a) fs"
    by (intro hp_cong assms(3)) auto
  ultimately show ?thesis
    using assms(1,4) by (auto simp: lnk_def split: option.splits)
qed

lemma hp_rechild_right:
  assumes "hp h c (RightOf a l # fs)" and "a \<notin> set (addrs l @ fpre fs @ fpost fs)"
    and "\<And>b. b \<in> set (addrs l @ fpre fs @ fpost fs) \<Longrightarrow> lnk h' b = lnk h b"
    and "lnk h' a = map_option (\<lambda>(l, r, p). (l, c', p)) (lnk h a)"
  shows "hp h' c' (RightOf a l # fs)"
proof -
  have "ht h' (Some a) l = ht h (Some a) l"
    by (intro ht_cong assms(3)) simp
  moreover have "hp h' (Some a) fs = hp h (Some a) fs"
    by (intro hp_cong assms(3)) auto
  ultimately show ?thesis
    using assms(1,4) by (auto simp: lnk_def split: option.splits)
qed

subsection \<open>The rotations on trees\<close>

text \<open>
  At a position whose subtree is \<open>Node A x (Node B y C)\<close>, \<open>rotate_left\<close> returns and leaves
  \<open>Node (Node A x B) y C\<close> at that position; \<open>rotate_right\<close> is the mirror image.
\<close>

lemma ftop_cons: "fs \<noteq> [] \<Longrightarrow> ftop fs c = ftop fs c'"
  by (cases fs rule: fpar.cases) simp_all

lemma fpar_None: "(fpar fs = None) = (fs = [])"
  by (cases fs rule: fpar.cases) simp_all

lemma rotate_right_tree:
  assumes T: "ht (heap s) (fpar fs) (Node (Node A y B) x C)" and P: "hp (heap s) (Some x) fs"
    and D: "distinct (addrs (plug (Node (Node A y B) x C) fs))"
    and R: "rb_root s = ftop fs (Some x)"
  shows "\<exists>s'. rotate_right (Some x) s = ok (Some y, s')
     \<and> ht (heap s') (fpar fs) (Node A y (Node B x C)) \<and> hp (heap s') (Some y) fs
     \<and> rb_root s' = ftop fs (Some y)
     \<and> (\<forall>z. z \<noteq> x \<longrightarrow> z \<noteq> y \<longrightarrow> hw (heap s') (Some z) = hw (heap s) (Some z))
     \<and> hw (heap s') (Some x) = word_of_nat (Suc (max (sh (heap s) (rootp B)) (sh (heap s) (rootp C))))
     \<and> hw (heap s') (Some y) = word_of_nat (Suc (max (sh (heap s) (rootp A))
           (unat (word_of_nat (Suc (max (sh (heap s) (rootp B)) (sh (heap s) (rootp C)))) :: 8 word))))
     \<and> (\<forall>z. pl (heap s') z = pl (heap s) z)
     \<and> (\<forall>z. (heap s' z = None) = (heap s z = None))
     \<and> streak s' = streak s \<and> next_addr s' = next_addr s"
proof -
  let ?h = "heap s"
  from T obtain xn yn where xn: "?h x = Some xn" and xp: "parent xn = fpar fs"
    and xl: "left xn = Some y" and xr: "right xn = rootp C"
    and yn: "?h y = Some yn" and yl: "left yn = rootp A" and yr: "right yn = rootp B"
    and hA: "ht ?h (Some y) A" and hB: "ht ?h (Some y) B" and hC: "ht ?h (Some x) C"
    by (auto split: option.splits)
  from D have D': "distinct (fpre fs @ (addrs A @ y # addrs B) @ x # addrs C @ fpost fs)"
    by (simp add: addrs_plug)
  let ?SA = "set (addrs A)" and ?SB = "set (addrs B)" and ?SC = "set (addrs C)"
  let ?SF = "set (fpre fs @ fpost fs)"
  from D' have S: "x \<noteq> y" "x \<notin> ?SA" "x \<notin> ?SB" "x \<notin> ?SC" "x \<notin> ?SF"
    "y \<notin> ?SA" "y \<notin> ?SB" "y \<notin> ?SC" "y \<notin> ?SF"
    "\<And>z. z \<in> ?SA \<Longrightarrow> z \<notin> ?SB" "\<And>z. z \<in> ?SA \<Longrightarrow> z \<notin> ?SC"
    "\<And>z. z \<in> ?SA \<Longrightarrow> z \<notin> ?SF" "\<And>z. z \<in> ?SB \<Longrightarrow> z \<notin> ?SC"
    "\<And>z. z \<in> ?SB \<Longrightarrow> z \<notin> ?SF" "\<And>z. z \<in> ?SC \<Longrightarrow> z \<notin> ?SF"
    by auto
  have mA: "z \<in> ?SA" if "rootp A = Some z" for z using that by (rule rootp_in)
  have mB: "z \<in> ?SB" if "rootp B = Some z" for z using that by (rule rootp_in)
  have mF: "z \<in> ?SF" if "fpar fs = Some z" for z using that by (rule fpar_in)
  note xy = S(1)
  have nB: "rootp B \<noteq> Some x" "rootp B \<noteq> Some y"
    using S mB by (simp_all, blast+)
  have nA: "rootp A \<noteq> Some x" "rootp A \<noteq> Some y"
    using S mA by (simp_all, blast+)
  have nP: "fpar fs \<noteq> Some x" "fpar fs \<noteq> Some y"
    using S mF by (simp_all, blast+)
  have lvs: "lv ?h (rootp B)" "lv ?h (fpar fs)" "lv ?h (rootp C)" "lv ?h (rootp A)"
    using hA hB hC P by (auto intro: ht_lv_root hp_lv_fpar)
  let ?hx = "word_of_nat (Suc (max (sh ?h (rootp B)) (sh ?h (rootp C)))) :: 8 word"
  let ?hy = "word_of_nat (Suc (max (sh ?h (rootp A)) (unat ?hx))) :: 8 word"
  define H where "H = rr_heap x y xn yn ?hx ?hy ?h"
  define s' where "s' = s\<lparr>heap := H, rb_root := (if fpar fs = None then Some y else rb_root s)\<rparr>"
  have ex: "rotate_right (Some x) s = ok (Some y, s')"
    using rotate_right_exec [OF xn xl yn xy, unfolded yr xp xr yl, OF lvs nB nP nA(1)]
    by (simp add: s'_def H_def xp yr xr yl)
  have Hx: "H x = Some (xn\<lparr>left := rootp B, parent := Some y, height := ?hx\<rparr>)"
    unfolding H_def using xn xy nB nP by (simp add: rr_heap_x yr xp)
  have Hy: "H y = Some (yn\<lparr>right := Some x, parent := fpar fs, height := ?hy\<rparr>)"
    unfolding H_def using yn xy nB nP by (simp add: rr_heap_y yr xp)
  have Ho: "H z = (if fpar fs = Some z
      then map_option (\<lambda>n. if Some x = right n then n\<lparr>right := Some y\<rparr> else n\<lparr>left := Some y\<rparr>)
             (if rootp B = Some z then map_option (\<lambda>n. n\<lparr>parent := Some x\<rparr>) (?h z) else ?h z)
      else if rootp B = Some z then map_option (\<lambda>n. n\<lparr>parent := Some x\<rparr>) (?h z) else ?h z)"
    if "z \<noteq> x" "z \<noteq> y" for z
    unfolding H_def using that by (simp add: rr_heap_other yr xp)
  have LA: "lnk H z = lnk ?h z" if "z \<in> set (addrs A)" for z
  proof -
    from that S mB [of z] mF [of z] have "z \<noteq> x" "z \<noteq> y" "rootp B \<noteq> Some z" "fpar fs \<noteq> Some z"
      by (simp_all, blast+)
    then show ?thesis by (simp add: lnk_def Ho)
  qed
  have LC: "lnk H z = lnk ?h z" if "z \<in> set (addrs C)" for z
  proof -
    from that S mB [of z] mF [of z] have "z \<noteq> x" "z \<noteq> y" "rootp B \<noteq> Some z" "fpar fs \<noteq> Some z"
      by (simp_all, blast+)
    then show ?thesis by (simp add: lnk_def Ho)
  qed
  have LB: "lnk H z = lnk ?h z" if "z \<in> set (addrs B)" "Some z \<noteq> rootp B" for z
  proof -
    from that S mF [of z] have "z \<noteq> x" "z \<noteq> y" "rootp B \<noteq> Some z" "fpar fs \<noteq> Some z"
      by (simp_all, blast+)
    then show ?thesis by (simp add: lnk_def Ho)
  qed
  have LB': "lnk H z = map_option (\<lambda>(l, r, p). (l, r, Some x)) (lnk ?h z)" if "rootp B = Some z" for z
  proof -
    from mB [OF that] S mF [of z] have "z \<noteq> x" "z \<noteq> y" "fpar fs \<noteq> Some z"
      by (simp_all, blast+)
    with that show ?thesis by (cases "?h z") (simp_all add: lnk_def Ho)
  qed
  have LF: "lnk H z = lnk ?h z" if "z \<in> set (fpre fs @ fpost fs)" "fpar fs \<noteq> Some z" for z
  proof -
    from that S mB [of z] have "z \<noteq> x" "z \<noteq> y" "rootp B \<noteq> Some z"
      by (simp_all, blast+)
    with that show ?thesis by (simp add: lnk_def Ho)
  qed
  have HP: "H p = map_option (\<lambda>n. if Some x = right n then n\<lparr>right := Some y\<rparr> else n\<lparr>left := Some y\<rparr>) (?h p)"
    if "fpar fs = Some p" for p
  proof -
    from mF [OF that] S mB [of p] have "p \<noteq> x" "p \<noteq> y" "rootp B \<noteq> Some p"
      by (simp_all, blast+)
    with that show ?thesis by (simp add: Ho)
  qed
  have t1: "ht H (Some y) A"
    using hA ht_cong [of A H ?h "Some y"] LA by simp
  have t2: "ht H (Some x) C"
    using hC ht_cong [of C H ?h "Some x"] LC by simp
  have t3: "ht H (Some x) B"
  proof (rule ht_reparent [where h = ?h and par = "Some y"])
    show "ht ?h (Some y) B" by (rule hB)
    show "distinct (addrs B)" using D' by simp
    show "lnk H a = lnk ?h a" if "a \<in> set (addrs B)" "Some a \<noteq> rootp B" for a
      using that by (rule LB)
    show "lnk H a = map_option (\<lambda>(l, r, p). (l, r, Some x)) (lnk ?h a)" if "rootp B = Some a" for a
      using that by (rule LB')
  qed
  have t: "ht H (fpar fs) (Node A y (Node B x C))"
    using t1 t2 t3 by (simp add: Hx Hy yl xr)
  have p: "hp H (Some y) fs"
  proof (cases fs rule: fpar.cases)
    case 1
    then show ?thesis by simp
  next
    case (2 a r fs')
    from P 2 obtain an where an: "?h a = Some an" "left an = Some x" "right an = rootp r"
      by (auto split: option.splits)
    from S(5) 2 have "x \<notin> set (addrs r)" by simp
    then have "rootp r \<noteq> Some x" by (auto dest: rootp_in)
    with an HP [of a] 2 have la: "lnk H a = map_option (\<lambda>(l, r, p). (Some y, r, p)) (lnk ?h a)"
      by (simp add: lnk_def)
    from D' 2 have na: "a \<notin> set (addrs r @ fpre fs' @ fpost fs')" by simp
    have lb: "lnk H b = lnk ?h b" if "b \<in> set (addrs r @ fpre fs' @ fpost fs')" for b
    proof (rule LF)
      from that show "b \<in> set (fpre fs @ fpost fs)" by (auto simp: 2)
      from that na show "fpar fs \<noteq> Some b" by (auto simp: 2)
    qed
    show ?thesis
      unfolding 2
    proof (rule hp_rechild_left [where h = ?h and c = "Some x"])
      show "hp ?h (Some x) (LeftOf a r # fs')" using P by (simp only: 2)
    qed (fact na lb la)+
  next
    case (3 a l fs')
    from P 3 obtain an where an: "?h a = Some an" "right an = Some x" "left an = rootp l"
      by (auto split: option.splits)
    with HP [of a] 3 have la: "lnk H a = map_option (\<lambda>(l, r, p). (l, Some y, p)) (lnk ?h a)"
      by (simp add: lnk_def)
    from D' 3 have na: "a \<notin> set (addrs l @ fpre fs' @ fpost fs')" by simp
    have lb: "lnk H b = lnk ?h b" if "b \<in> set (addrs l @ fpre fs' @ fpost fs')" for b
    proof (rule LF)
      from that show "b \<in> set (fpre fs @ fpost fs)" by (auto simp: 3)
      from that na show "fpar fs \<noteq> Some b" by (auto simp: 3)
    qed
    show ?thesis
      unfolding 3
    proof (rule hp_rechild_right [where h = ?h and c = "Some x"])
      show "hp ?h (Some x) (RightOf a l # fs')" using P by (simp only: 3)
    qed (fact na lb la)+
  qed
  have r: "rb_root s' = ftop fs (Some y)"
    using R by (cases "fs = []") (auto simp: s'_def fpar_None ftop_cons [of fs "Some x" "Some y"])
  have hws: "hw H (Some z) = hw ?h (Some z)" if "z \<noteq> x" "z \<noteq> y" for z
    unfolding H_def using that by (rule rr_heap_hw)
  have "hw H (Some x) = ?hx" "hw H (Some y) = ?hy"
    by (simp_all add: Hx Hy)
  moreover have "pl H z = pl ?h z" "(H z = None) = (?h z = None)" for z
    by (simp_all add: H_def rr_heap_pl rr_heap_None)
  ultimately show ?thesis
    using ex t p r hws by (intro exI [of _ s']) (simp add: s'_def)
qed

lemma rotate_left_tree:
  assumes T: "ht (heap s) (fpar fs) (Node A x (Node B y C))" and P: "hp (heap s) (Some x) fs"
    and D: "distinct (addrs (plug (Node A x (Node B y C)) fs))"
    and R: "rb_root s = ftop fs (Some x)"
  shows "\<exists>s'. rotate_left (Some x) s = ok (Some y, s')
     \<and> ht (heap s') (fpar fs) (Node (Node A x B) y C) \<and> hp (heap s') (Some y) fs
     \<and> rb_root s' = ftop fs (Some y)
     \<and> (\<forall>z. z \<noteq> x \<longrightarrow> z \<noteq> y \<longrightarrow> hw (heap s') (Some z) = hw (heap s) (Some z))
     \<and> hw (heap s') (Some x) = word_of_nat (Suc (max (sh (heap s) (rootp A)) (sh (heap s) (rootp B))))
     \<and> hw (heap s') (Some y) = word_of_nat (Suc (max
           (unat (word_of_nat (Suc (max (sh (heap s) (rootp A)) (sh (heap s) (rootp B)))) :: 8 word))
           (sh (heap s) (rootp C))))
     \<and> (\<forall>z. pl (heap s') z = pl (heap s) z)
     \<and> (\<forall>z. (heap s' z = None) = (heap s z = None))
     \<and> streak s' = streak s \<and> next_addr s' = next_addr s"
proof -
  let ?h = "heap s"
  from T obtain xn yn where xn: "?h x = Some xn" and xp: "parent xn = fpar fs"
    and xl: "right xn = Some y" and xr: "left xn = rootp A"
    and yn: "?h y = Some yn" and yl: "right yn = rootp C" and yr: "left yn = rootp B"
    and hC: "ht ?h (Some y) C" and hB: "ht ?h (Some y) B" and hA: "ht ?h (Some x) A"
    by (auto split: option.splits)
  from D have D': "distinct (fpre fs @ (addrs A @ x # addrs B @ y # addrs C) @ fpost fs)"
    by (simp add: addrs_plug)
  let ?SC = "set (addrs C)" and ?SB = "set (addrs B)" and ?SA = "set (addrs A)"
  let ?SF = "set (fpre fs @ fpost fs)"
  from D' have S: "x \<noteq> y" "x \<notin> ?SC" "x \<notin> ?SB" "x \<notin> ?SA" "x \<notin> ?SF"
    "y \<notin> ?SC" "y \<notin> ?SB" "y \<notin> ?SA" "y \<notin> ?SF"
    "\<And>z. z \<in> ?SC \<Longrightarrow> z \<notin> ?SB" "\<And>z. z \<in> ?SC \<Longrightarrow> z \<notin> ?SA"
    "\<And>z. z \<in> ?SC \<Longrightarrow> z \<notin> ?SF" "\<And>z. z \<in> ?SB \<Longrightarrow> z \<notin> ?SA"
    "\<And>z. z \<in> ?SB \<Longrightarrow> z \<notin> ?SF" "\<And>z. z \<in> ?SA \<Longrightarrow> z \<notin> ?SF"
    by auto
  have mC: "z \<in> ?SC" if "rootp C = Some z" for z using that by (rule rootp_in)
  have mB: "z \<in> ?SB" if "rootp B = Some z" for z using that by (rule rootp_in)
  have mF: "z \<in> ?SF" if "fpar fs = Some z" for z using that by (rule fpar_in)
  note xy = S(1)
  have nB: "rootp B \<noteq> Some x" "rootp B \<noteq> Some y"
    using S mB by (simp_all, blast+)
  have nC: "rootp C \<noteq> Some x" "rootp C \<noteq> Some y"
    using S mC by (simp_all, blast+)
  have nP: "fpar fs \<noteq> Some x" "fpar fs \<noteq> Some y"
    using S mF by (simp_all, blast+)
  have lvs: "lv ?h (rootp B)" "lv ?h (fpar fs)" "lv ?h (rootp A)" "lv ?h (rootp C)"
    using hC hB hA P by (auto intro: ht_lv_root hp_lv_fpar)
  let ?hx = "word_of_nat (Suc (max (sh ?h (rootp A)) (sh ?h (rootp B)))) :: 8 word"
  let ?hy = "word_of_nat (Suc (max (unat ?hx) (sh ?h (rootp C)))) :: 8 word"
  define H where "H = rl_heap x y xn yn ?hx ?hy ?h"
  define s' where "s' = s\<lparr>heap := H, rb_root := (if fpar fs = None then Some y else rb_root s)\<rparr>"
  have ex: "rotate_left (Some x) s = ok (Some y, s')"
    using rotate_left_exec [OF xn xl yn xy, unfolded yr xp xr yl, OF lvs nB nP nC(1)]
    by (simp add: s'_def H_def xp yr xr yl)
  have Hx: "H x = Some (xn\<lparr>right := rootp B, parent := Some y, height := ?hx\<rparr>)"
    unfolding H_def using xn xy nB nP by (simp add: rl_heap_x yr xp)
  have Hy: "H y = Some (yn\<lparr>left := Some x, parent := fpar fs, height := ?hy\<rparr>)"
    unfolding H_def using yn xy nB nP by (simp add: rl_heap_y yr xp)
  have Ho: "H z = (if fpar fs = Some z
      then map_option (\<lambda>n. if Some x = left n then n\<lparr>left := Some y\<rparr> else n\<lparr>right := Some y\<rparr>)
             (if rootp B = Some z then map_option (\<lambda>n. n\<lparr>parent := Some x\<rparr>) (?h z) else ?h z)
      else if rootp B = Some z then map_option (\<lambda>n. n\<lparr>parent := Some x\<rparr>) (?h z) else ?h z)"
    if "z \<noteq> x" "z \<noteq> y" for z
    unfolding H_def using that by (simp add: rl_heap_other yr xp)
  have LC: "lnk H z = lnk ?h z" if "z \<in> set (addrs C)" for z
  proof -
    from that S mB [of z] mF [of z] have "z \<noteq> x" "z \<noteq> y" "rootp B \<noteq> Some z" "fpar fs \<noteq> Some z"
      by (simp_all, blast+)
    then show ?thesis by (simp add: lnk_def Ho)
  qed
  have LA: "lnk H z = lnk ?h z" if "z \<in> set (addrs A)" for z
  proof -
    from that S mB [of z] mF [of z] have "z \<noteq> x" "z \<noteq> y" "rootp B \<noteq> Some z" "fpar fs \<noteq> Some z"
      by (simp_all, blast+)
    then show ?thesis by (simp add: lnk_def Ho)
  qed
  have LB: "lnk H z = lnk ?h z" if "z \<in> set (addrs B)" "Some z \<noteq> rootp B" for z
  proof -
    from that S mF [of z] have "z \<noteq> x" "z \<noteq> y" "rootp B \<noteq> Some z" "fpar fs \<noteq> Some z"
      by (simp_all, blast+)
    then show ?thesis by (simp add: lnk_def Ho)
  qed
  have LB': "lnk H z = map_option (\<lambda>(l, r, p). (l, r, Some x)) (lnk ?h z)" if "rootp B = Some z" for z
  proof -
    from mB [OF that] S mF [of z] have "z \<noteq> x" "z \<noteq> y" "fpar fs \<noteq> Some z"
      by (simp_all, blast+)
    with that show ?thesis by (cases "?h z") (simp_all add: lnk_def Ho)
  qed
  have LF: "lnk H z = lnk ?h z" if "z \<in> set (fpre fs @ fpost fs)" "fpar fs \<noteq> Some z" for z
  proof -
    from that S mB [of z] have "z \<noteq> x" "z \<noteq> y" "rootp B \<noteq> Some z"
      by (simp_all, blast+)
    with that show ?thesis by (simp add: lnk_def Ho)
  qed
  have HP: "H p = map_option (\<lambda>n. if Some x = left n then n\<lparr>left := Some y\<rparr> else n\<lparr>right := Some y\<rparr>) (?h p)"
    if "fpar fs = Some p" for p
  proof -
    from mF [OF that] S mB [of p] have "p \<noteq> x" "p \<noteq> y" "rootp B \<noteq> Some p"
      by (simp_all, blast+)
    with that show ?thesis by (simp add: Ho)
  qed
  have t1: "ht H (Some y) C"
    using hC ht_cong [of C H ?h "Some y"] LC by simp
  have t2: "ht H (Some x) A"
    using hA ht_cong [of A H ?h "Some x"] LA by simp
  have t3: "ht H (Some x) B"
  proof (rule ht_reparent [where h = ?h and par = "Some y"])
    show "ht ?h (Some y) B" by (rule hB)
    show "distinct (addrs B)" using D' by simp
    show "lnk H a = lnk ?h a" if "a \<in> set (addrs B)" "Some a \<noteq> rootp B" for a
      using that by (rule LB)
    show "lnk H a = map_option (\<lambda>(l, r, p). (l, r, Some x)) (lnk ?h a)" if "rootp B = Some a" for a
      using that by (rule LB')
  qed
  have t: "ht H (fpar fs) (Node (Node A x B) y C)"
    using t1 t2 t3 by (simp add: Hx Hy yl xr)
  have p: "hp H (Some y) fs"
  proof (cases fs rule: fpar.cases)
    case 1
    then show ?thesis by simp
  next
    case (3 a r fs')
    from P 3 obtain an where an: "?h a = Some an" "right an = Some x" "left an = rootp r"
      by (auto split: option.splits)
    from S(5) 3 have "x \<notin> set (addrs r)" by simp
    then have "rootp r \<noteq> Some x" by (auto dest: rootp_in)
    with an HP [of a] 3 have la: "lnk H a = map_option (\<lambda>(l, r, p). (l, Some y, p)) (lnk ?h a)"
      by (simp add: lnk_def)
    from D' 3 have na: "a \<notin> set (addrs r @ fpre fs' @ fpost fs')" by simp
    have lb: "lnk H b = lnk ?h b" if "b \<in> set (addrs r @ fpre fs' @ fpost fs')" for b
    proof (rule LF)
      from that show "b \<in> set (fpre fs @ fpost fs)" by (auto simp: 3)
      from that na show "fpar fs \<noteq> Some b" by (auto simp: 3)
    qed
    show ?thesis
      unfolding 3
    proof (rule hp_rechild_right [where h = ?h and c = "Some x"])
      show "hp ?h (Some x) (RightOf a r # fs')" using P by (simp only: 3)
    qed (fact na lb la)+
  next
    case (2 a l fs')
    from P 2 obtain an where an: "?h a = Some an" "left an = Some x" "right an = rootp l"
      by (auto split: option.splits)
    with HP [of a] 2 have la: "lnk H a = map_option (\<lambda>(l, r, p). (Some y, r, p)) (lnk ?h a)"
      by (simp add: lnk_def)
    from D' 2 have na: "a \<notin> set (addrs l @ fpre fs' @ fpost fs')" by simp
    have lb: "lnk H b = lnk ?h b" if "b \<in> set (addrs l @ fpre fs' @ fpost fs')" for b
    proof (rule LF)
      from that show "b \<in> set (fpre fs @ fpost fs)" by (auto simp: 2)
      from that na show "fpar fs \<noteq> Some b" by (auto simp: 2)
    qed
    show ?thesis
      unfolding 2
    proof (rule hp_rechild_left [where h = ?h and c = "Some x"])
      show "hp ?h (Some x) (LeftOf a l # fs')" using P by (simp only: 2)
    qed (fact na lb la)+
  qed
  have r: "rb_root s' = ftop fs (Some y)"
    using R by (cases "fs = []") (auto simp: s'_def fpar_None ftop_cons [of fs "Some x" "Some y"])
  have hws: "hw H (Some z) = hw ?h (Some z)" if "z \<noteq> x" "z \<noteq> y" for z
    unfolding H_def using that by (rule rl_heap_hw)
  have "hw H (Some x) = ?hx" "hw H (Some y) = ?hy"
    by (simp_all add: Hx Hy)
  moreover have "pl H z = pl ?h z" "(H z = None) = (?h z = None)" for z
    by (simp_all add: H_def rl_heap_pl rl_heap_None)
  ultimately show ?thesis
    using ex t p r hws by (intro exI [of _ s']) (simp add: s'_def)
qed

section \<open>Balance in the stored heights\<close>

text \<open>
  \<open>rb_insert\<close> never sets the height of the node it creates, so a new leaf has the stored
  height 0 of an absent child; \<open>update_height\<close> gives it height 1 only when a later insert
  passes through it. \<open>avl h t\<close> is the balance the code maintains: every node either is
  such a leaf with stored height 0, or stores \<open>1 + max\<close> of its children's stored heights,
  which differ by at most 1. \<open>pinv\<close> is the same for the frames above a position whose
  subtree had stored height \<open>d\<close> before the insert.
\<close>

fun avl :: "(addr \<Rightarrow> RBNode option) \<Rightarrow> atree \<Rightarrow> bool" where
  "avl h Leaf = True"
| "avl h (Node l a r) = (avl h l \<and> avl h r \<and>
     ((sh h (Some a) = 0 \<and> l = Leaf \<and> r = Leaf) \<or>
      (sh h (Some a) = Suc (max (sh h (rootp l)) (sh h (rootp r)))
        \<and> sh h (rootp l) \<le> sh h (rootp r) + 1 \<and> sh h (rootp r) \<le> sh h (rootp l) + 1)))"

fun pinv :: "(addr \<Rightarrow> RBNode option) \<Rightarrow> nat \<Rightarrow> frame list \<Rightarrow> bool" where
  "pinv h d [] = True"
| "pinv h d (LeftOf a r # fs) = (avl h r \<and> d \<le> sh h (rootp r) + 1 \<and> sh h (rootp r) \<le> d + 1
     \<and> pinv h (Suc (max d (sh h (rootp r)))) fs)"
| "pinv h d (RightOf a l # fs) = (avl h l \<and> d \<le> sh h (rootp l) + 1 \<and> sh h (rootp l) \<le> d + 1
     \<and> pinv h (Suc (max (sh h (rootp l)) d)) fs)"

lemma sh_cong: "hw h' p = hw h p \<Longrightarrow> sh h' p = sh h p"
  by (simp add: sh_def)

lemma avl_cong:
  "(\<And>a. a \<in> set (addrs t) \<Longrightarrow> hw h' (Some a) = hw h (Some a)) \<Longrightarrow> avl h' t = avl h t"
proof (induction t)
  case Leaf
  then show ?case by simp
next
  case (Node l a r)
  have 1: "avl h' l = avl h l" "avl h' r = avl h r"
    by (rule Node.IH; simp add: Node.prems)+
  have 2: "sh h' (Some a) = sh h (Some a)"
    by (rule sh_cong, rule Node.prems) simp
  have 3: "sh h' (rootp l) = sh h (rootp l)"
    by (cases l) (auto intro!: sh_cong Node.prems)
  have 4: "sh h' (rootp r) = sh h (rootp r)"
    by (cases r) (auto intro!: sh_cong Node.prems)
  show ?case by (simp add: 1 2 3 4)
qed

lemma sh_rootp_cong:
  "(\<And>a. a \<in> set (addrs t) \<Longrightarrow> hw h' (Some a) = hw h (Some a)) \<Longrightarrow> sh h' (rootp t) = sh h (rootp t)"
  by (cases t) (auto intro!: sh_cong)

lemma pinv_cong:
  "(\<And>a. a \<in> set (fpre fs @ fpost fs) \<Longrightarrow> hw h' (Some a) = hw h (Some a)) \<Longrightarrow> pinv h' d fs = pinv h d fs"
proof (induction fs arbitrary: d)
  case Nil
  then show ?case by simp
next
  case (Cons f fs)
  have IH: "pinv h' e fs = pinv h e fs" for e
    by (rule Cons.IH) (cases f; auto simp: Cons.prems)
  show ?case
  proof (cases f)
    case (LeftOf a r)
    have "avl h' r = avl h r" "sh h' (rootp r) = sh h (rootp r)"
      by (rule avl_cong sh_rootp_cong; simp add: Cons.prems LeftOf)+
    then show ?thesis by (simp add: LeftOf IH)
  next
    case (RightOf a l)
    have "avl h' l = avl h l" "sh h' (rootp l) = sh h (rootp l)"
      by (rule avl_cong sh_rootp_cong; simp add: Cons.prems RightOf)+
    then show ?thesis by (simp add: RightOf IH)
  qed
qed

text \<open>A tree that is balanced in its stored heights is at least exponentially large.\<close>

lemma avl_size: "avl h t \<Longrightarrow> 2 ^ (sh h (rootp t) div 2) \<le> Suc (length (addrs t))"
proof (induction t)
  case Leaf
  then show ?case by simp
next
  case (Node l a r)
  let ?hl = "sh h (rootp l)" and ?hr = "sh h (rootp r)" and ?ha = "sh h (Some a)"
  from Node have il: "2 ^ (?hl div 2) \<le> Suc (length (addrs l))"
    and ir: "2 ^ (?hr div 2) \<le> Suc (length (addrs r))" by simp_all
  from Node.prems consider "?ha = 0" | "?ha = Suc (max ?hl ?hr)" "?hl \<le> ?hr + 1" "?hr \<le> ?hl + 1"
    by auto
  then show ?case
  proof cases
    case 1
    then show ?thesis by simp
  next
    case 2
    have "(2::nat) ^ (?ha div 2) \<le> 2 ^ (?hl div 2) + 2 ^ (?hr div 2)"
    proof (cases "?hl \<le> ?hr")
      case True
      with 2 have a: "?ha = Suc ?hr" and b: "?hr \<le> ?hl + 1" by (simp_all add: max_def)
      have "?ha div 2 \<le> Suc (?hl div 2)" "?ha div 2 \<le> Suc (?hr div 2)" "?hl div 2 \<le> ?hr div 2"
        using a b True by arith+
      then consider "?ha div 2 \<le> ?hl div 2" | "?ha div 2 = Suc (?hl div 2)" by linarith
      then show ?thesis
      proof cases
        case 1
        then have "(2::nat) ^ (?ha div 2) \<le> 2 ^ (?hl div 2)" by (simp add: power_increasing)
        then show ?thesis by (rule trans_le_add1)
      next
        case 2
        have "(2::nat) ^ (?hl div 2) \<le> 2 ^ (?hr div 2)"
          using \<open>?hl div 2 \<le> ?hr div 2\<close> by (simp add: power_increasing)
        with 2 show ?thesis by simp
      qed
    next
      case False
      with 2 have a: "?ha = Suc ?hl" and b: "?hl \<le> ?hr + 1" by (simp_all add: max_def)
      have "?ha div 2 \<le> Suc (?hr div 2)" "?hr div 2 \<le> ?hl div 2"
        using a b False by arith+
      then consider "?ha div 2 \<le> ?hr div 2" | "?ha div 2 = Suc (?hr div 2)" by linarith
      then show ?thesis
      proof cases
        case 1
        then have "(2::nat) ^ (?ha div 2) \<le> 2 ^ (?hr div 2)" by (simp add: power_increasing)
        then show ?thesis by (rule trans_le_add2)
      next
        case 2
        have "(2::nat) ^ (?hr div 2) \<le> 2 ^ (?hl div 2)"
          using \<open>?hr div 2 \<le> ?hl div 2\<close> by (simp add: power_increasing)
        with 2 show ?thesis by simp
      qed
    qed
    with il ir show ?thesis by simp
  qed
qed

lemma avl_height_bound:
  assumes "avl h t" and "length (addrs t) \<le> 2 ^ 32"
  shows "sh h (rootp t) \<le> 65"
proof (rule ccontr)
  assume "\<not> sh h (rootp t) \<le> 65"
  then have "33 \<le> sh h (rootp t) div 2" by arith
  then have "(2::nat) ^ 33 \<le> 2 ^ (sh h (rootp t) div 2)"
    by (rule power_increasing) simp
  also have "\<dots> \<le> Suc (length (addrs t))" by (rule avl_size [OF assms(1)])
  also have "\<dots> \<le> Suc (2 ^ 32)" using assms(2) by simp
  finally show False by simp
qed

subsection \<open>States during the walk to the root\<close>

text \<open>
  \<open>wf_focus s t fs\<close>: the store holds the tree \<open>plug t fs\<close>, of at most \<open>2 ^ 32\<close> nodes, and
  \<open>rb_root\<close> points to its root. \<open>arrive\<close> is the state in which \<open>rebalance_up\<close> is called on
  the parent of a rebalanced subtree \<open>t\<close>; \<open>fin\<close> is the state it returns in; \<open>cont fs\<close> says
  that the walk from the frames \<open>fs\<close> upwards returns.
\<close>

definition same_data :: "state \<Rightarrow> state \<Rightarrow> bool" where
  "same_data s s' = ((\<forall>z. pl (heap s') z = pl (heap s) z) \<and> (\<forall>z. (heap s' z = None) = (heap s z = None))
     \<and> streak s' = streak s \<and> next_addr s' = next_addr s)"

lemma same_data_refl [simp]: "same_data s s"
  by (simp add: same_data_def)

lemma same_data_trans: "same_data s s1 \<Longrightarrow> same_data s1 s2 \<Longrightarrow> same_data s s2"
  by (simp add: same_data_def)

definition wf_focus :: "state \<Rightarrow> atree \<Rightarrow> frame list \<Rightarrow> bool" where
  "wf_focus s t fs = (ht (heap s) (fpar fs) t \<and> hp (heap s) (rootp t) fs
     \<and> distinct (addrs (plug t fs)) \<and> rb_root s = ftop fs (rootp t)
     \<and> length (addrs (plug t fs)) \<le> 2 ^ 32)"

definition fin :: "state \<Rightarrow> addr list \<Rightarrow> bool" where
  "fin s as = (\<exists>T. ht (heap s) None T \<and> rb_root s = rootp T \<and> addrs T = as \<and> avl (heap s) T)"

definition arrive :: "state \<Rightarrow> atree \<Rightarrow> frame list \<Rightarrow> nat \<Rightarrow> bool" where
  "arrive s t fs d = (wf_focus s t fs \<and> avl (heap s) t \<and> d \<le> sh (heap s) (rootp t)
     \<and> sh (heap s) (rootp t) \<le> d + 1 \<and> pinv (heap s) d fs)"

definition cont :: "frame list \<Rightarrow> addr list \<Rightarrow> bool" where
  "cont fs as = (\<forall>s t d. arrive s t fs d \<and> addrs (plug t fs) = as \<longrightarrow>
     (\<exists>s'. rebalance_up (fpar fs) s = ok s' \<and> fin s' as \<and> same_data s s'))"

lemma unat_wn: "n < 256 \<Longrightarrow> unat (word_of_nat n :: 8 word) = n"
  by (simp add: unat_of_nat)

lemma wf_focus_live:
  assumes "wf_focus s (Node l a r) fs"
  obtains n where "heap s a = Some n" "left n = rootp l" "right n = rootp r" "parent n = fpar fs"
    "lv (heap s) (rootp l)" "lv (heap s) (rootp r)"
  using assms by (auto simp: wf_focus_def split: option.splits intro: ht_lv_root)

lemma wf_focus_notin:
  assumes "wf_focus s (Node l a r) fs"
  shows "a \<notin> set (addrs l)" "a \<notin> set (addrs r)" "a \<notin> set (fpre fs @ fpost fs)"
    "length (addrs l) \<le> 2 ^ 32" "length (addrs r) \<le> 2 ^ 32"
  using assms by (auto simp: wf_focus_def addrs_plug)

lemma uh_focus:
  assumes wf: "wf_focus s (Node l a r) fs"
    and b: "sh (heap s) (rootp l) < 255" "sh (heap s) (rootp r) < 255"
  shows "\<exists>s1. update_height (Some a) s = ok s1 \<and> wf_focus s1 (Node l a r) fs \<and> same_data s s1
     \<and> sh (heap s1) (Some a) = Suc (max (sh (heap s) (rootp l)) (sh (heap s) (rootp r)))
     \<and> (\<forall>z. z \<noteq> a \<longrightarrow> heap s1 z = heap s z)"
proof -
  from wf obtain n where n: "heap s a = Some n" "left n = rootp l" "right n = rootp r" "parent n = fpar fs"
    "lv (heap s) (rootp l)" "lv (heap s) (rootp r)"
    by (rule wf_focus_live)
  define s1 where "s1 = s\<lparr>heap := (heap s)(a \<mapsto> n\<lparr>height := newh (heap s) n\<rparr>)\<rparr>"
  have ex: "update_height (Some a) s = ok s1"
    unfolding s1_def using n by (intro update_height_exec) simp_all
  have lk: "lnk (heap s1) z = lnk (heap s) z" for z
    using n(1) by (simp add: s1_def lnk_def)
  have "ht (heap s1) (fpar fs) (Node l a r) = ht (heap s) (fpar fs) (Node l a r)"
    by (rule ht_cong) (rule lk)
  moreover have "hp (heap s1) (Some a) fs = hp (heap s) (Some a) fs"
    by (rule hp_cong) (rule lk)
  moreover have "rb_root s1 = rb_root s" by (simp add: s1_def)
  ultimately have wf1: "wf_focus s1 (Node l a r) fs"
    using wf by (simp add: wf_focus_def)
  have sd: "same_data s s1"
    using n(1) by (auto simp: same_data_def s1_def pl_def)
  have "unat (newh (heap s) n) = Suc (max (sh (heap s) (rootp l)) (sh (heap s) (rootp r)))"
    using unat_newh [of "heap s" n] b n by simp
  then have "sh (heap s1) (Some a) = Suc (max (sh (heap s) (rootp l)) (sh (heap s) (rootp r)))"
    by (simp add: s1_def sh_def)
  moreover have "\<forall>z. z \<noteq> a \<longrightarrow> heap s1 z = heap s z"
    by (simp add: s1_def)
  ultimately show ?thesis
    using ex wf1 sd by blast
qed

lemma hw_frame: "(\<And>z. z \<noteq> a \<Longrightarrow> h' z = h z) \<Longrightarrow> b \<noteq> a \<Longrightarrow> hw h' (Some b) = hw h (Some b)"
  by (simp add: hw_def)

lemma avl_frame: "(\<And>z. z \<noteq> a \<Longrightarrow> h' z = h z) \<Longrightarrow> a \<notin> set (addrs t) \<Longrightarrow> avl h' t = avl h t"
  by (rule avl_cong) (auto intro: hw_frame)

lemma sh_frame: "(\<And>z. z \<noteq> a \<Longrightarrow> h' z = h z) \<Longrightarrow> a \<notin> set (addrs t) \<Longrightarrow> sh h' (rootp t) = sh h (rootp t)"
  by (rule sh_rootp_cong) (auto intro: hw_frame)

lemma pinv_frame: "(\<And>z. z \<noteq> a \<Longrightarrow> h' z = h z) \<Longrightarrow> a \<notin> set (fpre fs @ fpost fs) \<Longrightarrow> pinv h' d fs = pinv h d fs"
  by (rule pinv_cong) (auto intro: hw_frame)

lemma bal_step:
  assumes wf: "wf_focus s (Node l a r) fs"
    and al: "avl (heap s) l" and ar: "avl (heap s) r"
    and bal: "sh (heap s) (rootp l) \<le> sh (heap s) (rootp r) + 1" "sh (heap s) (rootp r) \<le> sh (heap s) (rootp l) + 1"
    and d: "d \<le> Suc (max (sh (heap s) (rootp l)) (sh (heap s) (rootp r)))"
           "Suc (max (sh (heap s) (rootp l)) (sh (heap s) (rootp r))) \<le> d + 1"
    and pi: "pinv (heap s) d fs"
    and k: "cont fs (addrs (plug (Node l a r) fs))"
  shows "\<exists>s'. rebalance_up (Some a) s = ok s' \<and> fin s' (addrs (plug (Node l a r) fs)) \<and> same_data s s'"
proof -
  note ni = wf_focus_notin [OF wf]
  have bl: "sh (heap s) (rootp l) \<le> 65" "sh (heap s) (rootp r) \<le> 65"
    using al ar ni by (auto intro: avl_height_bound)
  then obtain s1 where s1: "update_height (Some a) s = ok s1" "wf_focus s1 (Node l a r) fs" "same_data s s1"
    "sh (heap s1) (Some a) = Suc (max (sh (heap s) (rootp l)) (sh (heap s) (rootp r)))"
    and fr: "\<And>z. z \<noteq> a \<Longrightarrow> heap s1 z = heap s z"
    using uh_focus [OF wf] by force
  from s1(2) obtain n where n: "heap s1 a = Some n" "left n = rootp l" "right n = rootp r" "parent n = fpar fs"
    "lv (heap s1) (rootp l)" "lv (heap s1) (rootp r)"
    by (rule wf_focus_live)
  have shl: "sh (heap s1) (rootp l) = sh (heap s) (rootp l)" and shr: "sh (heap s1) (rootp r) = sh (heap s) (rootp r)"
    using ni by (auto intro!: sh_frame fr)
  have b: "bf (Some a) s1 = ok (int (sh (heap s) (rootp l)) - int (sh (heap s) (rootp r)))"
    using bf_exec [OF n(1)] n by (simp add: shl shr)
  have step: "rebalance_up (Some a) s = rebalance_up (fpar fs) s1"
    using bal n(1,4) by (subst rebalance_up.simps) (simp add: s1(1) b)
  have "avl (heap s1) l" "avl (heap s1) r"
    using al ar ni by (auto simp: avl_frame [OF fr])
  then have a1: "avl (heap s1) (Node l a r)"
    using s1(4) bal by (simp add: shl shr)
  have p1: "pinv (heap s1) d fs"
    using pi ni by (simp add: pinv_frame [OF fr])
  have "arrive s1 (Node l a r) fs d"
    using s1(2) a1 p1 d by (simp add: arrive_def s1(4))
  with k obtain s' where "rebalance_up (fpar fs) s1 = ok s'" "fin s' (addrs (plug (Node l a r) fs))" "same_data s1 s'"
    unfolding cont_def by blast
  with step s1(3) show ?thesis
    by (auto intro: same_data_trans)
qed

lemma avl_frame2:
  assumes "\<And>z. z \<noteq> x \<Longrightarrow> z \<noteq> y \<Longrightarrow> hw h' (Some z) = hw h (Some z)"
    and "x \<notin> set (addrs t)" "y \<notin> set (addrs t)"
  shows "avl h' t = avl h t"
proof (rule avl_cong)
  fix a assume "a \<in> set (addrs t)"
  with assms(2,3) have "a \<noteq> x" "a \<noteq> y" by auto
  then show "hw h' (Some a) = hw h (Some a)" by (rule assms(1))
qed

lemma sh_frame2:
  assumes "\<And>z. z \<noteq> x \<Longrightarrow> z \<noteq> y \<Longrightarrow> hw h' (Some z) = hw h (Some z)"
    and "x \<notin> set (addrs t)" "y \<notin> set (addrs t)"
  shows "sh h' (rootp t) = sh h (rootp t)"
proof (rule sh_rootp_cong)
  fix a assume "a \<in> set (addrs t)"
  with assms(2,3) have "a \<noteq> x" "a \<noteq> y" by auto
  then show "hw h' (Some a) = hw h (Some a)" by (rule assms(1))
qed

lemma pinv_frame2:
  assumes "\<And>z. z \<noteq> x \<Longrightarrow> z \<noteq> y \<Longrightarrow> hw h' (Some z) = hw h (Some z)"
    and "x \<notin> set (fpre fs @ fpost fs)" "y \<notin> set (fpre fs @ fpost fs)"
  shows "pinv h' d fs = pinv h d fs"
proof (rule pinv_cong)
  fix a assume "a \<in> set (fpre fs @ fpost fs)"
  with assms(2,3) have "a \<noteq> x" "a \<noteq> y" by auto
  then show "hw h' (Some a) = hw h (Some a)" by (rule assms(1))
qed

lemma rotate_right_focus:
  assumes wf: "wf_focus s (Node (Node A y B) x C) fs"
    and b: "sh (heap s) (rootp A) < 200" "sh (heap s) (rootp B) < 200" "sh (heap s) (rootp C) < 200"
  shows "\<exists>s'. rotate_right (Some x) s = ok (Some y, s') \<and> wf_focus s' (Node A y (Node B x C)) fs
     \<and> same_data s s'
     \<and> (\<forall>z. z \<noteq> x \<longrightarrow> z \<noteq> y \<longrightarrow> hw (heap s') (Some z) = hw (heap s) (Some z))
     \<and> sh (heap s') (Some x) = Suc (max (sh (heap s) (rootp B)) (sh (heap s) (rootp C)))
     \<and> sh (heap s') (Some y) = Suc (max (sh (heap s) (rootp A))
           (Suc (max (sh (heap s) (rootp B)) (sh (heap s) (rootp C)))))"
proof -
  from wf have T: "ht (heap s) (fpar fs) (Node (Node A y B) x C)" and P: "hp (heap s) (Some x) fs"
    and D: "distinct (addrs (plug (Node (Node A y B) x C) fs))" and R: "rb_root s = ftop fs (Some x)"
    and L: "length (addrs (plug (Node (Node A y B) x C) fs)) \<le> 2 ^ 32"
    by (simp_all add: wf_focus_def)
  from rotate_right_tree [OF T P D R] obtain s' where
    ex: "rotate_right (Some x) s = ok (Some y, s')"
    and t: "ht (heap s') (fpar fs) (Node A y (Node B x C))" and p: "hp (heap s') (Some y) fs"
    and r: "rb_root s' = ftop fs (Some y)"
    and fr: "\<forall>z. z \<noteq> x \<longrightarrow> z \<noteq> y \<longrightarrow> hw (heap s') (Some z) = hw (heap s) (Some z)"
    and hx: "hw (heap s') (Some x) = word_of_nat (Suc (max (sh (heap s) (rootp B)) (sh (heap s) (rootp C))))"
    and hy: "hw (heap s') (Some y) = word_of_nat (Suc (max (sh (heap s) (rootp A))
           (unat (word_of_nat (Suc (max (sh (heap s) (rootp B)) (sh (heap s) (rootp C)))) :: 8 word))))"
    and sd: "\<forall>z. pl (heap s') z = pl (heap s) z" "\<forall>z. (heap s' z = None) = (heap s z = None)"
      "streak s' = streak s" "next_addr s' = next_addr s"
    by blast
  have e: "addrs (plug (Node A y (Node B x C)) fs) = addrs (plug (Node (Node A y B) x C) fs)"
    by (simp add: addrs_plug)
  have w: "wf_focus s' (Node A y (Node B x C)) fs"
    using t p r D L by (simp add: wf_focus_def e)
  have sx: "sh (heap s') (Some x) = Suc (max (sh (heap s) (rootp B)) (sh (heap s) (rootp C)))"
    using b unfolding sh_def [of "heap s'"] hx by (intro unat_wn) simp
  have sy: "sh (heap s') (Some y) = Suc (max (sh (heap s) (rootp A))
           (Suc (max (sh (heap s) (rootp B)) (sh (heap s) (rootp C)))))"
  proof -
    have "unat (word_of_nat (Suc (max (sh (heap s) (rootp B)) (sh (heap s) (rootp C)))) :: 8 word)
        = Suc (max (sh (heap s) (rootp B)) (sh (heap s) (rootp C)))"
      using b by (intro unat_wn) simp
    then show ?thesis
      using b unfolding sh_def [of "heap s'"] hy by (simp only:) (intro unat_wn, simp)
  qed
  from ex w sd fr sx sy show ?thesis
    by (intro exI [of _ s']) (simp add: same_data_def)
qed

lemma rotate_left_focus:
  assumes wf: "wf_focus s (Node A x (Node B y C)) fs"
    and b: "sh (heap s) (rootp A) < 200" "sh (heap s) (rootp B) < 200" "sh (heap s) (rootp C) < 200"
  shows "\<exists>s'. rotate_left (Some x) s = ok (Some y, s') \<and> wf_focus s' (Node (Node A x B) y C) fs
     \<and> same_data s s'
     \<and> (\<forall>z. z \<noteq> x \<longrightarrow> z \<noteq> y \<longrightarrow> hw (heap s') (Some z) = hw (heap s) (Some z))
     \<and> sh (heap s') (Some x) = Suc (max (sh (heap s) (rootp A)) (sh (heap s) (rootp B)))
     \<and> sh (heap s') (Some y) = Suc (max (Suc (max (sh (heap s) (rootp A)) (sh (heap s) (rootp B))))
           (sh (heap s) (rootp C)))"
proof -
  from wf have T: "ht (heap s) (fpar fs) (Node A x (Node B y C))" and P: "hp (heap s) (Some x) fs"
    and D: "distinct (addrs (plug (Node A x (Node B y C)) fs))" and R: "rb_root s = ftop fs (Some x)"
    and L: "length (addrs (plug (Node A x (Node B y C)) fs)) \<le> 2 ^ 32"
    by (simp_all add: wf_focus_def)
  from rotate_left_tree [OF T P D R] obtain s' where
    ex: "rotate_left (Some x) s = ok (Some y, s')"
    and t: "ht (heap s') (fpar fs) (Node (Node A x B) y C)" and p: "hp (heap s') (Some y) fs"
    and r: "rb_root s' = ftop fs (Some y)"
    and fr: "\<forall>z. z \<noteq> x \<longrightarrow> z \<noteq> y \<longrightarrow> hw (heap s') (Some z) = hw (heap s) (Some z)"
    and hx: "hw (heap s') (Some x) = word_of_nat (Suc (max (sh (heap s) (rootp A)) (sh (heap s) (rootp B))))"
    and hy: "hw (heap s') (Some y) = word_of_nat (Suc (max
           (unat (word_of_nat (Suc (max (sh (heap s) (rootp A)) (sh (heap s) (rootp B)))) :: 8 word))
           (sh (heap s) (rootp C))))"
    and sd: "\<forall>z. pl (heap s') z = pl (heap s) z" "\<forall>z. (heap s' z = None) = (heap s z = None)"
      "streak s' = streak s" "next_addr s' = next_addr s"
    by blast
  have e: "addrs (plug (Node (Node A x B) y C) fs) = addrs (plug (Node A x (Node B y C)) fs)"
    by (simp add: addrs_plug)
  have w: "wf_focus s' (Node (Node A x B) y C) fs"
    using t p r D L by (simp add: wf_focus_def e)
  have sx: "sh (heap s') (Some x) = Suc (max (sh (heap s) (rootp A)) (sh (heap s) (rootp B)))"
    using b unfolding sh_def [of "heap s'"] hx by (intro unat_wn) simp
  have sy: "sh (heap s') (Some y) = Suc (max (Suc (max (sh (heap s) (rootp A)) (sh (heap s) (rootp B))))
           (sh (heap s) (rootp C)))"
  proof -
    have "unat (word_of_nat (Suc (max (sh (heap s) (rootp A)) (sh (heap s) (rootp B)))) :: 8 word)
        = Suc (max (sh (heap s) (rootp A)) (sh (heap s) (rootp B)))"
      using b by (intro unat_wn) simp
    then show ?thesis
      using b unfolding sh_def [of "heap s'"] hy by (simp only:) (intro unat_wn, simp)
  qed
  from ex w sd fr sx sy show ?thesis
    by (intro exI [of _ s']) (simp add: same_data_def)
qed

lemma avl_frameS:
  assumes "\<And>z. z \<notin> X \<Longrightarrow> hw h' (Some z) = hw h (Some z)" and "set (addrs t) \<inter> X = {}"
  shows "avl h' t = avl h t"
proof (rule avl_cong)
  fix a assume "a \<in> set (addrs t)"
  with assms(2) have "a \<notin> X" by auto
  then show "hw h' (Some a) = hw h (Some a)" by (rule assms(1))
qed

lemma sh_frameS:
  assumes "\<And>z. z \<notin> X \<Longrightarrow> hw h' (Some z) = hw h (Some z)" and "set (addrs t) \<inter> X = {}"
  shows "sh h' (rootp t) = sh h (rootp t)"
proof (rule sh_rootp_cong)
  fix a assume "a \<in> set (addrs t)"
  with assms(2) have "a \<notin> X" by auto
  then show "hw h' (Some a) = hw h (Some a)" by (rule assms(1))
qed

lemma pinv_frameS:
  assumes "\<And>z. z \<notin> X \<Longrightarrow> hw h' (Some z) = hw h (Some z)" and "set (fpre fs @ fpost fs) \<inter> X = {}"
  shows "pinv h' d fs = pinv h d fs"
proof (rule pinv_cong)
  fix a assume "a \<in> set (fpre fs @ fpost fs)"
  with assms(2) have "a \<notin> X" by auto
  then show "hw h' (Some a) = hw h (Some a)" by (rule assms(1))
qed

lemma sh_Some_frameS:
  assumes "\<And>z. z \<notin> X \<Longrightarrow> hw h' (Some z) = hw h (Some z)" and "a \<notin> X"
  shows "sh h' (Some a) = sh h (Some a)"
  using assms by (simp add: sh_def)

lemma frame_all:
  assumes "\<And>z. z \<notin> X \<Longrightarrow> hw h' (Some z) = hw h (Some z)"
  shows "\<And>t. set (addrs t) \<inter> X = {} \<Longrightarrow> sh h' (rootp t) = sh h (rootp t)"
    and "\<And>t. set (addrs t) \<inter> X = {} \<Longrightarrow> avl h' t = avl h t"
    and "\<And>fs d. set (fpre fs @ fpost fs) \<inter> X = {} \<Longrightarrow> pinv h' d fs = pinv h d fs"
    and "\<And>a. a \<notin> X \<Longrightarrow> sh h' (Some a) = sh h (Some a)"
proof -
  show "\<And>t. set (addrs t) \<inter> X = {} \<Longrightarrow> sh h' (rootp t) = sh h (rootp t)"
    by (rule sh_frameS [where X = X]) (rule assms)
  show "\<And>t. set (addrs t) \<inter> X = {} \<Longrightarrow> avl h' t = avl h t"
    by (rule avl_frameS [where X = X]) (rule assms)
  show "\<And>fs d. set (fpre fs @ fpost fs) \<inter> X = {} \<Longrightarrow> pinv h' d fs = pinv h d fs"
    by (rule pinv_frameS [where X = X]) (rule assms)
  show "\<And>a. a \<notin> X \<Longrightarrow> sh h' (Some a) = sh h (Some a)"
    by (rule sh_Some_frameS [where X = X]) (rule assms)
qed

lemma sh_Leaf_0: "sh h (rootp t) \<noteq> 0 \<Longrightarrow> \<exists>l a r. t = Node l a r"
  by (cases t) auto

lemma avl_real:
  assumes "avl h (Node l a r)" and "sh h (Some a) \<noteq> 0"
  shows "avl h l" "avl h r" "sh h (Some a) = Suc (max (sh h (rootp l)) (sh h (rootp r)))"
    "sh h (rootp l) \<le> sh h (rootp r) + 1" "sh h (rootp r) \<le> sh h (rootp l) + 1"
  using assms by auto

lemma avlI:
  "avl h l \<Longrightarrow> avl h r \<Longrightarrow> sh h (Some a) = Suc (max (sh h (rootp l)) (sh h (rootp r))) \<Longrightarrow>
   sh h (rootp l) \<le> sh h (rootp r) + 1 \<Longrightarrow> sh h (rootp r) \<le> sh h (rootp l) + 1 \<Longrightarrow>
   avl h (Node l a r)"
  by simp

lemma wf_focus_down_left:
  "wf_focus s (Node l a r) fs = wf_focus s l (LeftOf a r # fs)"
  by (cases l) (auto simp: wf_focus_def split: option.splits)

lemma wf_focus_down_right:
  "wf_focus s (Node l a r) fs = wf_focus s r (RightOf a l # fs)"
  by (cases r) (auto simp: wf_focus_def split: option.splits)

lemma wr_same_left:
  "heap s a = Some n \<Longrightarrow> left n = v \<Longrightarrow> wr (Some a) (\<lambda>x. x\<lparr>left := v\<rparr>) s = ok s"
  by (auto simp: fun_upd_idem)

lemma wr_same_right:
  "heap s a = Some n \<Longrightarrow> right n = v \<Longrightarrow> wr (Some a) (\<lambda>x. x\<lparr>right := v\<rparr>) s = ok s"
  by (auto simp: fun_upd_idem)

subsection \<open>The two unbalanced cases\<close>

lemma left_heavy_step:
  assumes wf: "wf_focus s (Node l a r) fs"
    and al: "avl (heap s) l" and ar: "avl (heap s) r"
    and hv: "sh (heap s) (rootp l) = sh (heap s) (rootp r) + 2"
    and d: "d = sh (heap s) (rootp l)"
    and pi: "pinv (heap s) d fs"
    and k: "cont fs (addrs (plug (Node l a r) fs))"
  shows "\<exists>s'. rebalance_up (Some a) s = ok s' \<and> fin s' (addrs (plug (Node l a r) fs)) \<and> same_data s s'"
proof -
  let ?h = "heap s"
  note ni = wf_focus_notin [OF wf]
  have bl: "sh ?h (rootp l) \<le> 65" "sh ?h (rootp r) \<le> 65"
    using al ar ni by (auto intro: avl_height_bound)
  then obtain s1 where s1: "update_height (Some a) s = ok s1" "wf_focus s1 (Node l a r) fs" "same_data s s1"
    and fr: "\<And>z. z \<noteq> a \<Longrightarrow> heap s1 z = heap s z"
    using uh_focus [OF wf] by force
  let ?h1 = "heap s1"
  have f1: "hw ?h1 (Some z) = hw ?h (Some z)" if "z \<notin> {a}" for z
    using that by (intro hw_frame [where a = a] fr) simp_all
  from s1(2) obtain n where n: "?h1 a = Some n" "left n = rootp l" "right n = rootp r" "parent n = fpar fs"
    "lv ?h1 (rootp l)" "lv ?h1 (rootp r)"
    by (rule wf_focus_live)
  from hv obtain ll y lr where l: "l = Node ll y lr"
    using sh_Leaf_0 [of ?h l] by auto
  from al have al': "avl ?h (Node ll y lr)" by (simp only: l)
  from hv have yn0: "sh ?h (Some y) \<noteq> 0" by (simp add: l)
  note ry = avl_real [OF al' yn0]
  from wf have D: "distinct (fpre fs @ (addrs ll @ y # addrs lr) @ a # addrs r @ fpost fs)"
    by (simp add: wf_focus_def addrs_plug l)
  have na: "set (addrs ll) \<inter> {a} = {}" "set (addrs lr) \<inter> {a} = {}" "set (addrs r) \<inter> {a} = {}"
    "set (fpre fs @ fpost fs) \<inter> {a} = {}" "y \<notin> {a}"
    using D by auto
  note F1 = frame_all [of "{a}" ?h1 ?h, OF f1]
  have h1: "sh ?h1 (rootp ll) = sh ?h (rootp ll)" "sh ?h1 (rootp lr) = sh ?h (rootp lr)"
    "sh ?h1 (rootp r) = sh ?h (rootp r)" "sh ?h1 (Some y) = sh ?h (Some y)"
    "avl ?h1 ll = avl ?h ll" "avl ?h1 lr = avl ?h lr" "avl ?h1 r = avl ?h r" "pinv ?h1 d fs = pinv ?h d fs"
    using na by - (rule F1; assumption)+
  have b: "bf (Some a) s1 = ok 2"
    using bf_exec [OF n(1)] n hv by (simp add: h1 l)
  from s1(2) obtain yn where yn: "?h1 y = Some yn" "left yn = rootp ll" "right yn = rootp lr"
    "lv ?h1 (rootp ll)" "lv ?h1 (rootp lr)"
    by (auto simp: wf_focus_def l split: option.splits intro: ht_lv_root)
  have bfy: "bf (Some y) s1 = ok (int (sh ?h (rootp ll)) - int (sh ?h (rootp lr)))"
    using bf_exec [OF yn(1)] yn by (simp add: h1)
  have sub: "sh ?h (rootp ll) \<le> 65" "sh ?h (rootp lr) \<le> 65"
    using ry(3) hv bl by (simp_all add: l)
  let ?as = "addrs (plug (Node l a r) fs)"
  show ?thesis
  proof (cases "sh ?h (rootp lr) \<le> sh ?h (rootp ll)")
    case True
    have "wf_focus s1 (Node (Node ll y lr) a r) fs" using s1(2) by (simp add: l)
    from rotate_right_focus [OF this] sub bl obtain s4 where
      ex4: "rotate_right (Some a) s1 = ok (Some y, s4)"
      and wf4: "wf_focus s4 (Node ll y (Node lr a r)) fs" and sd4: "same_data s1 s4"
      and fr4: "\<And>z. z \<noteq> a \<Longrightarrow> z \<noteq> y \<Longrightarrow> hw (heap s4) (Some z) = hw ?h1 (Some z)"
      and sx: "sh (heap s4) (Some a) = Suc (max (sh ?h (rootp lr)) (sh ?h (rootp r)))"
      by (auto simp: h1)
    let ?h4 = "heap s4"
    have f4: "hw ?h4 (Some z) = hw ?h (Some z)" if "z \<notin> {a, y}" for z
      using that fr4 [of z] f1 [of z] by simp
    have nb: "set (addrs ll) \<inter> {a, y} = {}" "set (addrs lr) \<inter> {a, y} = {}" "set (addrs r) \<inter> {a, y} = {}"
      "set (fpre fs @ fpost fs) \<inter> {a, y} = {}"
      using D by auto
    have h4: "sh ?h4 (rootp ll) = sh ?h (rootp ll)" "sh ?h4 (rootp lr) = sh ?h (rootp lr)"
      "sh ?h4 (rootp r) = sh ?h (rootp r)"
      "avl ?h4 ll = avl ?h ll" "avl ?h4 lr = avl ?h lr" "avl ?h4 r = avl ?h r" "pinv ?h4 d fs = pinv ?h d fs"
      using nb by - (rule frame_all [of "{a, y}" ?h4 ?h, OF f4]; assumption)+
    have step: "rebalance_up (Some a) s = rebalance_up (Some y) s4"
      using True n(1,2) by (subst rebalance_up.simps) (simp add: s1(1) b l bfy ex4)
    have e: "addrs (plug (Node ll y (Node lr a r)) fs) = ?as"
      by (simp add: addrs_plug l)
    have "\<exists>s'. rebalance_up (Some y) s4 = ok s' \<and> fin s' (addrs (plug (Node ll y (Node lr a r)) fs)) \<and> same_data s4 s'"
    proof (rule bal_step [OF wf4, where d = d])
      show "avl ?h4 ll" using ry by (simp add: h4)
      show "avl ?h4 (Node lr a r)"
        using ry ar sx True hv by (simp add: h4 l)
      show "sh ?h4 (rootp ll) \<le> sh ?h4 (rootp (Node lr a r)) + 1"
        using ry True hv by (simp add: h4 sx l)
      show "sh ?h4 (rootp (Node lr a r)) \<le> sh ?h4 (rootp ll) + 1"
        using ry True hv by (simp add: h4 sx l)
      show "d \<le> Suc (max (sh ?h4 (rootp ll)) (sh ?h4 (rootp (Node lr a r))))"
        using ry True hv d by (simp add: h4 sx l)
      show "Suc (max (sh ?h4 (rootp ll)) (sh ?h4 (rootp (Node lr a r)))) \<le> d + 1"
        using ry True hv d by (simp add: h4 sx l)
      show "pinv ?h4 d fs" using pi by (simp add: h4)
      show "cont fs (addrs (plug (Node ll y (Node lr a r)) fs))" using k by (simp only: e)
    qed
    then obtain s' where "rebalance_up (Some y) s4 = ok s'" "fin s' ?as" "same_data s4 s'"
      unfolding e by blast
    with step s1(3) sd4 show ?thesis
      by (auto intro: same_data_trans)
  next
    case False
    then have lt: "sh ?h (rootp ll) < sh ?h (rootp lr)" by simp
    then obtain lrl z lrr where lr: "lr = Node lrl z lrr"
      using sh_Leaf_0 [of ?h lr] by auto
    from ry(2) have alr': "avl ?h (Node lrl z lrr)" by (simp only: lr)
    from lt have zn0: "sh ?h (Some z) \<noteq> 0" by (simp add: lr)
    note rz = avl_real [OF alr' zn0]
    from D have D2: "distinct (fpre fs @ (addrs ll @ y # addrs lrl @ z # addrs lrr) @ a # addrs r @ fpost fs)"
      by (simp add: lr)
    have nz: "set (addrs lrl) \<inter> {a} = {}" "set (addrs lrr) \<inter> {a} = {}"
      using D2 by auto
    have h1z: "sh ?h1 (rootp lrl) = sh ?h (rootp lrl)" "sh ?h1 (rootp lrr) = sh ?h (rootp lrr)"
      using nz by - (rule F1; assumption)+
    have sub2: "sh ?h (rootp lrl) \<le> 65" "sh ?h (rootp lrr) \<le> 65"
      using rz(3) sub(2) by (simp_all add: lr)
    have "wf_focus s1 (Node (Node ll y (Node lrl z lrr)) a r) fs" using s1(2) by (simp only: l lr)
    then have w1: "wf_focus s1 (Node ll y (Node lrl z lrr)) (LeftOf a r # fs)"
      by (rule wf_focus_down_left [THEN iffD1])
    have "sh ?h1 (rootp ll) < 200" "sh ?h1 (rootp lrl) < 200" "sh ?h1 (rootp lrr) < 200"
      using sub sub2 by (simp_all add: h1 h1z)
    from rotate_left_focus [OF w1 this] obtain s2 where
      ex2: "rotate_left (Some y) s1 = ok (Some z, s2)"
      and wf2: "wf_focus s2 (Node (Node ll y lrl) z lrr) (LeftOf a r # fs)" and sd2: "same_data s1 s2"
      and fr2: "\<And>w. w \<noteq> y \<Longrightarrow> w \<noteq> z \<Longrightarrow> hw (heap s2) (Some w) = hw ?h1 (Some w)"
      and sy2: "sh (heap s2) (Some y) = Suc (max (sh ?h (rootp ll)) (sh ?h (rootp lrl)))"
      by (auto simp: h1 h1z)
    let ?h2 = "heap s2"
    have wf2': "wf_focus s2 (Node (Node (Node ll y lrl) z lrr) a r) fs"
      using wf2 by (rule wf_focus_down_left [THEN iffD2])
    from wf2' obtain n2 where n2: "?h2 a = Some n2" "left n2 = Some z"
      by (rule wf_focus_live) simp
    have e3: "wr (Some a) (\<lambda>x. x\<lparr>left := Some z\<rparr>) s2 = ok s2"
      by (rule wr_same_left [OF n2])
    have f2: "hw ?h2 (Some w) = hw ?h (Some w)" if "w \<notin> {a, y, z}" for w
      using that fr2 [of w] f1 [of w] by simp
    have nc: "set (addrs ll) \<inter> {a, y, z} = {}" "set (addrs lrl) \<inter> {a, y, z} = {}"
      "set (addrs lrr) \<inter> {a, y, z} = {}" "set (addrs r) \<inter> {a, y, z} = {}"
      "set (fpre fs @ fpost fs) \<inter> {a, y, z} = {}"
      using D2 by auto
    note F2 = frame_all [of "{a, y, z}" ?h2 ?h, OF f2]
    have h2: "sh ?h2 (rootp lrr) = sh ?h (rootp lrr)" "sh ?h2 (rootp r) = sh ?h (rootp r)"
      using nc by - (rule F2; assumption)+
    have hv': "sh ?h (Some y) = sh ?h (rootp r) + 2" using hv by (simp add: l)
    have zz: "sh ?h (rootp lr) = sh ?h (Some z)" by (simp add: lr)
    have ar1: "sh ?h (rootp ll) = sh ?h (rootp r)"
      "max (sh ?h (rootp lrl)) (sh ?h (rootp lrr)) = sh ?h (rootp r)"
      "sh ?h (rootp lrl) \<le> sh ?h (rootp lrr) + 1" "sh ?h (rootp lrr) \<le> sh ?h (rootp lrl) + 1"
      using hv' ry(3,4,5) rz(3,4,5) zz lt by arith+
    have "sh ?h2 (rootp (Node ll y lrl)) < 200" "sh ?h2 (rootp lrr) < 200" "sh ?h2 (rootp r) < 200"
      using sub sub2 bl by (simp_all add: sy2 h2)
    from rotate_right_focus [OF wf2' this] obtain s4 where
      ex4: "rotate_right (Some a) s2 = ok (Some z, s4)"
      and wf4: "wf_focus s4 (Node (Node ll y lrl) z (Node lrr a r)) fs" and sd4: "same_data s2 s4"
      and fr4: "\<And>w. w \<noteq> a \<Longrightarrow> w \<noteq> z \<Longrightarrow> hw (heap s4) (Some w) = hw ?h2 (Some w)"
      and sx4: "sh (heap s4) (Some a) = Suc (max (sh ?h (rootp lrr)) (sh ?h (rootp r)))"
      by (auto simp: h2)
    let ?h4 = "heap s4"
    have f4: "hw ?h4 (Some w) = hw ?h (Some w)" if "w \<notin> {a, y, z}" for w
      using that fr4 [of w] f2 [of w] by simp
    note F4 = frame_all [of "{a, y, z}" ?h4 ?h, OF f4]
    have h4: "sh ?h4 (rootp ll) = sh ?h (rootp ll)" "sh ?h4 (rootp lrl) = sh ?h (rootp lrl)"
      "sh ?h4 (rootp lrr) = sh ?h (rootp lrr)" "sh ?h4 (rootp r) = sh ?h (rootp r)"
      "avl ?h4 ll = avl ?h ll" "avl ?h4 lrl = avl ?h lrl" "avl ?h4 lrr = avl ?h lrr" "avl ?h4 r = avl ?h r"
      "pinv ?h4 d fs = pinv ?h d fs"
      using nc by - (rule F4; assumption)+
    from D2 have "y \<noteq> a" "y \<noteq> z" by auto
    then have sy4: "sh ?h4 (Some y) = Suc (max (sh ?h (rootp ll)) (sh ?h (rootp lrl)))"
      using fr4 [of y] sy2 by (simp add: sh_def)
    have step: "rebalance_up (Some a) s = rebalance_up (Some z) s4"
      using lt n(1,2) by (subst rebalance_up.simps) (simp add: s1(1) b l bfy ex2 e3 ex4)
    have e: "addrs (plug (Node (Node ll y lrl) z (Node lrr a r)) fs) = ?as"
      by (simp add: addrs_plug l lr)
    have "\<exists>s'. rebalance_up (Some z) s4 = ok s' \<and> fin s' (addrs (plug (Node (Node ll y lrl) z (Node lrr a r)) fs)) \<and> same_data s4 s'"
    proof (rule bal_step [OF wf4, where d = d])
      show "avl ?h4 (Node ll y lrl)"
      proof (rule avlI)
        show "avl ?h4 ll" "avl ?h4 lrl" using ry(1) rz(1) by (simp_all only: h4)
        show "sh ?h4 (Some y) = Suc (max (sh ?h4 (rootp ll)) (sh ?h4 (rootp lrl)))"
          unfolding sy4 h4 ..
        show "sh ?h4 (rootp ll) \<le> sh ?h4 (rootp lrl) + 1" "sh ?h4 (rootp lrl) \<le> sh ?h4 (rootp ll) + 1"
          unfolding h4 using ar1 by arith+
      qed
      show "avl ?h4 (Node lrr a r)"
      proof (rule avlI)
        show "avl ?h4 lrr" "avl ?h4 r" using rz(2) ar by (simp_all only: h4)
        show "sh ?h4 (Some a) = Suc (max (sh ?h4 (rootp lrr)) (sh ?h4 (rootp r)))"
          unfolding sx4 h4 ..
        show "sh ?h4 (rootp lrr) \<le> sh ?h4 (rootp r) + 1" "sh ?h4 (rootp r) \<le> sh ?h4 (rootp lrr) + 1"
          unfolding h4 using ar1 by arith+
      qed
      show "sh ?h4 (rootp (Node ll y lrl)) \<le> sh ?h4 (rootp (Node lrr a r)) + 1"
        unfolding rootp.simps sy4 sx4 using ar1 by arith
      show "sh ?h4 (rootp (Node lrr a r)) \<le> sh ?h4 (rootp (Node ll y lrl)) + 1"
        unfolding rootp.simps sy4 sx4 using ar1 by arith
      show "d \<le> Suc (max (sh ?h4 (rootp (Node ll y lrl))) (sh ?h4 (rootp (Node lrr a r))))"
        unfolding rootp.simps sy4 sx4 using ar1 hv' d by (simp only: l rootp.simps; arith?)
      show "Suc (max (sh ?h4 (rootp (Node ll y lrl))) (sh ?h4 (rootp (Node lrr a r)))) \<le> d + 1"
        unfolding rootp.simps sy4 sx4 using ar1 hv' d by (simp only: l rootp.simps; arith?)
      show "pinv ?h4 d fs" using pi by (simp add: h4)
      show "cont fs (addrs (plug (Node (Node ll y lrl) z (Node lrr a r)) fs))" using k by (simp only: e)
    qed
    then obtain s' where "rebalance_up (Some z) s4 = ok s'" "fin s' ?as" "same_data s4 s'"
      unfolding e by blast
    with step s1(3) sd2 sd4 show ?thesis
      by (auto intro: same_data_trans)
  qed
qed

lemma right_heavy_step:
  assumes wf: "wf_focus s (Node l a r) fs"
    and ar: "avl (heap s) r" and al: "avl (heap s) l"
    and hv: "sh (heap s) (rootp r) = sh (heap s) (rootp l) + 2"
    and d: "d = sh (heap s) (rootp r)"
    and pi: "pinv (heap s) d fs"
    and k: "cont fs (addrs (plug (Node l a r) fs))"
  shows "\<exists>s'. rebalance_up (Some a) s = ok s' \<and> fin s' (addrs (plug (Node l a r) fs)) \<and> same_data s s'"
proof -
  let ?h = "heap s"
  note ni = wf_focus_notin [OF wf]
  have bl: "sh ?h (rootp r) \<le> 65" "sh ?h (rootp l) \<le> 65"
    using ar al ni by (auto intro: avl_height_bound)
  then obtain s1 where s1: "update_height (Some a) s = ok s1" "wf_focus s1 (Node l a r) fs" "same_data s s1"
    and fr: "\<And>z. z \<noteq> a \<Longrightarrow> heap s1 z = heap s z"
    using uh_focus [OF wf] by force
  let ?h1 = "heap s1"
  have f1: "hw ?h1 (Some z) = hw ?h (Some z)" if "z \<notin> {a}" for z
    using that by (intro hw_frame [where a = a] fr) simp_all
  from s1(2) obtain n where n: "?h1 a = Some n" "right n = rootp r" "left n = rootp l" "parent n = fpar fs"
    "lv ?h1 (rootp r)" "lv ?h1 (rootp l)"
    by (auto elim: wf_focus_live)
  from hv obtain rr y rl where r: "r = Node rl y rr"
    using sh_Leaf_0 [of ?h r] by auto
  from ar have ar': "avl ?h (Node rl y rr)" by (simp only: r)
  from hv have yn0: "sh ?h (Some y) \<noteq> 0" by (simp add: r)
  note ry = avl_real [OF ar' yn0]
  from wf have D: "distinct (fpre fs @ addrs l @ a # (addrs rl @ y # addrs rr) @ fpost fs)"
    by (simp add: wf_focus_def addrs_plug r)
  have na: "set (addrs rr) \<inter> {a} = {}" "set (addrs rl) \<inter> {a} = {}" "set (addrs l) \<inter> {a} = {}"
    "set (fpre fs @ fpost fs) \<inter> {a} = {}" "y \<notin> {a}"
    using D by auto
  note F1 = frame_all [of "{a}" ?h1 ?h, OF f1]
  have h1: "sh ?h1 (rootp rr) = sh ?h (rootp rr)" "sh ?h1 (rootp rl) = sh ?h (rootp rl)"
    "sh ?h1 (rootp l) = sh ?h (rootp l)" "sh ?h1 (Some y) = sh ?h (Some y)"
    "avl ?h1 rr = avl ?h rr" "avl ?h1 rl = avl ?h rl" "avl ?h1 l = avl ?h l" "pinv ?h1 d fs = pinv ?h d fs"
    using na by - (rule F1; assumption)+
  have b: "bf (Some a) s1 = ok (- 2)"
    using bf_exec [OF n(1)] n hv by (simp add: h1 r)
  from s1(2) obtain yn where yn: "?h1 y = Some yn" "right yn = rootp rr" "left yn = rootp rl"
    "lv ?h1 (rootp rr)" "lv ?h1 (rootp rl)"
    by (auto simp: wf_focus_def r split: option.splits intro: ht_lv_root)
  have bfy: "bf (Some y) s1 = ok (int (sh ?h (rootp rl)) - int (sh ?h (rootp rr)))"
    using bf_exec [OF yn(1)] yn by (simp add: h1)
  have sub: "sh ?h (rootp rr) \<le> 65" "sh ?h (rootp rl) \<le> 65"
    using ry(3) hv bl by (simp_all add: r)
  let ?as = "addrs (plug (Node l a r) fs)"
  show ?thesis
  proof (cases "sh ?h (rootp rl) \<le> sh ?h (rootp rr)")
    case True
    have "wf_focus s1 (Node l a (Node rl y rr)) fs" using s1(2) by (simp add: r)
    from rotate_left_focus [OF this] sub bl obtain s4 where
      ex4: "rotate_left (Some a) s1 = ok (Some y, s4)"
      and wf4: "wf_focus s4 (Node (Node l a rl) y rr) fs" and sd4: "same_data s1 s4"
      and fr4: "\<And>z. z \<noteq> a \<Longrightarrow> z \<noteq> y \<Longrightarrow> hw (heap s4) (Some z) = hw ?h1 (Some z)"
      and sx: "sh (heap s4) (Some a) = Suc (max (sh ?h (rootp l)) (sh ?h (rootp rl)))"
      by (auto simp: h1)
    let ?h4 = "heap s4"
    have f4: "hw ?h4 (Some z) = hw ?h (Some z)" if "z \<notin> {a, y}" for z
      using that fr4 [of z] f1 [of z] by simp
    have nb: "set (addrs rr) \<inter> {a, y} = {}" "set (addrs rl) \<inter> {a, y} = {}" "set (addrs l) \<inter> {a, y} = {}"
      "set (fpre fs @ fpost fs) \<inter> {a, y} = {}"
      using D by auto
    have h4: "sh ?h4 (rootp rr) = sh ?h (rootp rr)" "sh ?h4 (rootp rl) = sh ?h (rootp rl)"
      "sh ?h4 (rootp l) = sh ?h (rootp l)"
      "avl ?h4 rr = avl ?h rr" "avl ?h4 rl = avl ?h rl" "avl ?h4 l = avl ?h l" "pinv ?h4 d fs = pinv ?h d fs"
      using nb by - (rule frame_all [of "{a, y}" ?h4 ?h, OF f4]; assumption)+
    have step: "rebalance_up (Some a) s = rebalance_up (Some y) s4"
      using True n(1,2) by (subst rebalance_up.simps) (simp add: s1(1) b r bfy ex4)
    have e: "addrs (plug (Node (Node l a rl) y rr) fs) = ?as"
      by (simp add: addrs_plug r)
    have "\<exists>s'. rebalance_up (Some y) s4 = ok s' \<and> fin s' (addrs (plug (Node (Node l a rl) y rr) fs)) \<and> same_data s4 s'"
    proof (rule bal_step [OF wf4, where d = d])
      show "avl ?h4 rr" using ry by (simp add: h4)
      show "avl ?h4 (Node l a rl)"
        using ry al sx True hv by (simp add: h4 r)
      show "sh ?h4 (rootp rr) \<le> sh ?h4 (rootp (Node l a rl)) + 1"
        using ry True hv by (simp add: h4 sx r)
      show "sh ?h4 (rootp (Node l a rl)) \<le> sh ?h4 (rootp rr) + 1"
        using ry True hv by (simp add: h4 sx r)
      show "d \<le> Suc (max (sh ?h4 (rootp (Node l a rl))) (sh ?h4 (rootp rr)))"
        using ry True hv d by (simp add: h4 sx r)
      show "Suc (max (sh ?h4 (rootp (Node l a rl))) (sh ?h4 (rootp rr))) \<le> d + 1"
        using ry True hv d by (simp add: h4 sx r)
      show "pinv ?h4 d fs" using pi by (simp add: h4)
      show "cont fs (addrs (plug (Node (Node l a rl) y rr) fs))" using k by (simp only: e)
    qed
    then obtain s' where "rebalance_up (Some y) s4 = ok s'" "fin s' ?as" "same_data s4 s'"
      unfolding e by blast
    with step s1(3) sd4 show ?thesis
      by (auto intro: same_data_trans)
  next
    case False
    then have lt: "sh ?h (rootp rr) < sh ?h (rootp rl)" by simp
    then obtain rlr z rll where rl: "rl = Node rll z rlr"
      using sh_Leaf_0 [of ?h rl] by auto
    from ry(1) have arl': "avl ?h (Node rll z rlr)" by (simp only: rl)
    from lt have zn0: "sh ?h (Some z) \<noteq> 0" by (simp add: rl)
    note rz = avl_real [OF arl' zn0]
    from D have D2: "distinct (fpre fs @ addrs l @ a # ((addrs rll @ z # addrs rlr) @ y # addrs rr) @ fpost fs)"
      by (simp add: rl)
    have nz: "set (addrs rlr) \<inter> {a} = {}" "set (addrs rll) \<inter> {a} = {}"
      using D2 by auto
    have h1z: "sh ?h1 (rootp rlr) = sh ?h (rootp rlr)" "sh ?h1 (rootp rll) = sh ?h (rootp rll)"
      using nz by - (rule F1; assumption)+
    have sub2: "sh ?h (rootp rlr) \<le> 65" "sh ?h (rootp rll) \<le> 65"
      using rz(3) sub(2) by (simp_all add: rl)
    have "wf_focus s1 (Node l a (Node (Node rll z rlr) y rr)) fs" using s1(2) by (simp only: r rl)
    then have w1: "wf_focus s1 (Node (Node rll z rlr) y rr) (RightOf a l # fs)"
      by (rule wf_focus_down_right [THEN iffD1])
    have "sh ?h1 (rootp rll) < 200" "sh ?h1 (rootp rlr) < 200" "sh ?h1 (rootp rr) < 200"
using sub sub2 by (simp_all add: h1 h1z)
    from rotate_right_focus [OF w1 this] obtain s2 where
      ex2: "rotate_right (Some y) s1 = ok (Some z, s2)"
      and wf2: "wf_focus s2 (Node rll z (Node rlr y rr)) (RightOf a l # fs)" and sd2: "same_data s1 s2"
      and fr2: "\<And>w. w \<noteq> y \<Longrightarrow> w \<noteq> z \<Longrightarrow> hw (heap s2) (Some w) = hw ?h1 (Some w)"
      and sy2: "sh (heap s2) (Some y) = Suc (max (sh ?h (rootp rlr)) (sh ?h (rootp rr)))"
      by (auto simp: h1 h1z)
    let ?h2 = "heap s2"
    have wf2': "wf_focus s2 (Node l a (Node rll z (Node rlr y rr))) fs"
      using wf2 by (rule wf_focus_down_right [THEN iffD2])
    from wf2' obtain n2 where n2: "?h2 a = Some n2" "right n2 = Some z"
      by (auto elim: wf_focus_live)
    have e3: "wr (Some a) (\<lambda>x. x\<lparr>right := Some z\<rparr>) s2 = ok s2"
      by (rule wr_same_right [OF n2])
    have f2: "hw ?h2 (Some w) = hw ?h (Some w)" if "w \<notin> {a, y, z}" for w
      using that fr2 [of w] f1 [of w] by simp
    have nc: "set (addrs rr) \<inter> {a, y, z} = {}" "set (addrs rlr) \<inter> {a, y, z} = {}"
      "set (addrs rll) \<inter> {a, y, z} = {}" "set (addrs l) \<inter> {a, y, z} = {}"
      "set (fpre fs @ fpost fs) \<inter> {a, y, z} = {}"
      using D2 by auto
    note F2 = frame_all [of "{a, y, z}" ?h2 ?h, OF f2]
    have h2: "sh ?h2 (rootp rll) = sh ?h (rootp rll)" "sh ?h2 (rootp l) = sh ?h (rootp l)"
      using nc by - (rule F2; assumption)+
    have hv': "sh ?h (Some y) = sh ?h (rootp l) + 2" using hv by (simp add: r)
    have zz: "sh ?h (rootp rl) = sh ?h (Some z)" by (simp add: rl)
    have ar1: "sh ?h (rootp rr) = sh ?h (rootp l)"
      "max (sh ?h (rootp rll)) (sh ?h (rootp rlr)) = sh ?h (rootp l)"
      "sh ?h (rootp rlr) \<le> sh ?h (rootp rll) + 1" "sh ?h (rootp rll) \<le> sh ?h (rootp rlr) + 1"
      using hv' ry(3,4,5) rz(3,4,5) zz lt by arith+
    have "sh ?h2 (rootp l) < 200" "sh ?h2 (rootp rll) < 200" "sh ?h2 (rootp (Node rlr y rr)) < 200"
using sub sub2 bl by (simp_all add: sy2 h2)
    from rotate_left_focus [OF wf2' this] obtain s4 where
      ex4: "rotate_left (Some a) s2 = ok (Some z, s4)"
      and wf4: "wf_focus s4 (Node (Node l a rll) z (Node rlr y rr)) fs" and sd4: "same_data s2 s4"
      and fr4: "\<And>w. w \<noteq> a \<Longrightarrow> w \<noteq> z \<Longrightarrow> hw (heap s4) (Some w) = hw ?h2 (Some w)"
      and sx4: "sh (heap s4) (Some a) = Suc (max (sh ?h (rootp l)) (sh ?h (rootp rll)))"
      by (auto simp: h2)
    let ?h4 = "heap s4"
    have f4: "hw ?h4 (Some w) = hw ?h (Some w)" if "w \<notin> {a, y, z}" for w
      using that fr4 [of w] f2 [of w] by simp
    note F4 = frame_all [of "{a, y, z}" ?h4 ?h, OF f4]
    have h4: "sh ?h4 (rootp rr) = sh ?h (rootp rr)" "sh ?h4 (rootp rlr) = sh ?h (rootp rlr)"
      "sh ?h4 (rootp rll) = sh ?h (rootp rll)" "sh ?h4 (rootp l) = sh ?h (rootp l)"
      "avl ?h4 rr = avl ?h rr" "avl ?h4 rlr = avl ?h rlr" "avl ?h4 rll = avl ?h rll" "avl ?h4 l = avl ?h l"
      "pinv ?h4 d fs = pinv ?h d fs"
      using nc by - (rule F4; assumption)+
    from D2 have "y \<noteq> a" "y \<noteq> z" by auto
    then have sy4: "sh ?h4 (Some y) = Suc (max (sh ?h (rootp rlr)) (sh ?h (rootp rr)))"
      using fr4 [of y] sy2 by (simp add: sh_def)
    have step: "rebalance_up (Some a) s = rebalance_up (Some z) s4"
      using lt n(1,2) by (subst rebalance_up.simps) (simp add: s1(1) b r bfy ex2 e3 ex4)
    have e: "addrs (plug (Node (Node l a rll) z (Node rlr y rr)) fs) = ?as"
      by (simp add: addrs_plug r rl)
    have "\<exists>s'. rebalance_up (Some z) s4 = ok s' \<and> fin s' (addrs (plug (Node (Node l a rll) z (Node rlr y rr)) fs)) \<and> same_data s4 s'"
    proof (rule bal_step [OF wf4, where d = d])
      show "avl ?h4 (Node rlr y rr)"
      proof (rule avlI)
        show "avl ?h4 rr" "avl ?h4 rlr" using ry(2) rz(2) by (simp_all only: h4)
        show "sh ?h4 (Some y) = Suc (max (sh ?h4 (rootp rlr)) (sh ?h4 (rootp rr)))"
          unfolding sy4 h4 ..
        show "sh ?h4 (rootp rr) \<le> sh ?h4 (rootp rlr) + 1" "sh ?h4 (rootp rlr) \<le> sh ?h4 (rootp rr) + 1"
          unfolding h4 using ar1 by arith+
      qed
      show "avl ?h4 (Node l a rll)"
      proof (rule avlI)
        show "avl ?h4 rll" "avl ?h4 l" using rz(1) al by (simp_all only: h4)
        show "sh ?h4 (Some a) = Suc (max (sh ?h4 (rootp l)) (sh ?h4 (rootp rll)))"
          unfolding sx4 h4 ..
        show "sh ?h4 (rootp rll) \<le> sh ?h4 (rootp l) + 1" "sh ?h4 (rootp l) \<le> sh ?h4 (rootp rll) + 1"
          unfolding h4 using ar1 by arith+
      qed
      show "sh ?h4 (rootp (Node rlr y rr)) \<le> sh ?h4 (rootp (Node l a rll)) + 1"
        unfolding rootp.simps sy4 sx4 using ar1 by arith
      show "sh ?h4 (rootp (Node l a rll)) \<le> sh ?h4 (rootp (Node rlr y rr)) + 1"
        unfolding rootp.simps sy4 sx4 using ar1 by arith
      show "d \<le> Suc (max (sh ?h4 (rootp (Node l a rll))) (sh ?h4 (rootp (Node rlr y rr))))"
        unfolding rootp.simps sy4 sx4 using ar1 hv' d by (simp only: r rootp.simps; arith?)
      show "Suc (max (sh ?h4 (rootp (Node l a rll))) (sh ?h4 (rootp (Node rlr y rr)))) \<le> d + 1"
        unfolding rootp.simps sy4 sx4 using ar1 hv' d by (simp only: r rootp.simps; arith?)
      show "pinv ?h4 d fs" using pi by (simp add: h4)
      show "cont fs (addrs (plug (Node (Node l a rll) z (Node rlr y rr)) fs))" using k by (simp only: e)
    qed
    then obtain s' where "rebalance_up (Some z) s4 = ok s'" "fin s' ?as" "same_data s4 s'"
      unfolding e by blast
    with step s1(3) sd2 sd4 show ?thesis
      by (auto intro: same_data_trans)
  qed
qed

subsection \<open>\<open>rebalance_up\<close> returns\<close>

lemma node_step:
  assumes wf: "wf_focus s (Node l a r) fs"
    and al: "avl (heap s) l" and ar: "avl (heap s) r"
    and h: "sh (heap s) (rootp l) \<le> sh (heap s) (rootp r) + 2" "sh (heap s) (rootp r) \<le> sh (heap s) (rootp l) + 2"
    and d: "d \<le> Suc (max (sh (heap s) (rootp l)) (sh (heap s) (rootp r)))"
           "Suc (max (sh (heap s) (rootp l)) (sh (heap s) (rootp r))) \<le> d + 1"
    and d2: "sh (heap s) (rootp l) = sh (heap s) (rootp r) + 2 \<or> sh (heap s) (rootp r) = sh (heap s) (rootp l) + 2
           \<Longrightarrow> Suc (max (sh (heap s) (rootp l)) (sh (heap s) (rootp r))) = d + 1"
    and pi: "pinv (heap s) d fs"
    and k: "cont fs (addrs (plug (Node l a r) fs))"
  shows "\<exists>s'. rebalance_up (Some a) s = ok s' \<and> fin s' (addrs (plug (Node l a r) fs)) \<and> same_data s s'"
proof -
  consider (L) "sh (heap s) (rootp l) = sh (heap s) (rootp r) + 2"
    | (R) "sh (heap s) (rootp r) = sh (heap s) (rootp l) + 2"
    | (B) "sh (heap s) (rootp l) \<le> sh (heap s) (rootp r) + 1" "sh (heap s) (rootp r) \<le> sh (heap s) (rootp l) + 1"
    using h by linarith
  then show ?thesis
  proof cases
    case L
    with d2 have "d = sh (heap s) (rootp l)" by simp
    with wf al ar L pi k show ?thesis by (intro left_heavy_step)
  next
    case R
    with d2 have "d = sh (heap s) (rootp r)" by simp
    with wf al ar R pi k show ?thesis by (intro right_heavy_step)
  next
    case B
    with wf al ar d pi k show ?thesis by (intro bal_step)
  qed
qed

lemma rebalance_up_cont: "cont fs as"
proof (induction fs arbitrary: as)
  case Nil
  show ?case
    unfolding cont_def
  proof (intro allI impI)
    fix s t d
    assume a: "arrive s t [] d \<and> addrs (plug t []) = as"
    have "rebalance_up None s = ok s"
      by (subst rebalance_up.simps) simp
    moreover from a have "fin s as"
      by (auto simp: arrive_def wf_focus_def fin_def)
    ultimately show "\<exists>s'. rebalance_up (fpar []) s = ok s' \<and> fin s' as \<and> same_data s s'"
      by simp
  qed
next
  case (Cons f fs)
  show ?case
    unfolding cont_def
  proof (intro allI impI)
    fix s t d
    assume a: "arrive s t (f # fs) d \<and> addrs (plug t (f # fs)) = as"
    then have wf: "wf_focus s t (f # fs)" and at: "avl (heap s) t"
      and dt: "d \<le> sh (heap s) (rootp t)" "sh (heap s) (rootp t) \<le> d + 1"
      and pi: "pinv (heap s) d (f # fs)" and as: "addrs (plug t (f # fs)) = as"
      by (simp_all add: arrive_def)
    show "\<exists>s'. rebalance_up (fpar (f # fs)) s = ok s' \<and> fin s' as \<and> same_data s s'"
    proof (cases f)
      case (LeftOf p sib)
      from wf have wf': "wf_focus s (Node t p sib) fs"
        unfolding LeftOf by (rule wf_focus_down_left [THEN iffD2])
      from pi have ps: "avl (heap s) sib" "d \<le> sh (heap s) (rootp sib) + 1" "sh (heap s) (rootp sib) \<le> d + 1"
        "pinv (heap s) (Suc (max d (sh (heap s) (rootp sib)))) fs"
        by (simp_all add: LeftOf)
      have e: "addrs (plug (Node t p sib) fs) = as"
        using as by (simp add: LeftOf)
      have "\<exists>s'. rebalance_up (Some p) s = ok s' \<and> fin s' (addrs (plug (Node t p sib) fs)) \<and> same_data s s'"
      proof (rule node_step [OF wf' at ps(1), where d = "Suc (max d (sh (heap s) (rootp sib)))"])
        show "sh (heap s) (rootp t) \<le> sh (heap s) (rootp sib) + 2" using dt ps by arith
        show "sh (heap s) (rootp sib) \<le> sh (heap s) (rootp t) + 2" using dt ps by arith
        show "Suc (max d (sh (heap s) (rootp sib))) \<le> Suc (max (sh (heap s) (rootp t)) (sh (heap s) (rootp sib)))"
          using dt ps by arith
        show "Suc (max (sh (heap s) (rootp t)) (sh (heap s) (rootp sib))) \<le> Suc (max d (sh (heap s) (rootp sib))) + 1"
          using dt ps by arith
        show "Suc (max (sh (heap s) (rootp t)) (sh (heap s) (rootp sib))) = Suc (max d (sh (heap s) (rootp sib))) + 1"
          if "sh (heap s) (rootp t) = sh (heap s) (rootp sib) + 2 \<or> sh (heap s) (rootp sib) = sh (heap s) (rootp t) + 2"
          using that dt ps(2,3) by arith
        show "pinv (heap s) (Suc (max d (sh (heap s) (rootp sib)))) fs" by (rule ps(4))
        show "cont fs (addrs (plug (Node t p sib) fs))" by (rule Cons.IH)
      qed
      then show ?thesis by (simp add: LeftOf e)
    next
      case (RightOf p sib)
      from wf have wf': "wf_focus s (Node sib p t) fs"
        unfolding RightOf by (rule wf_focus_down_right [THEN iffD2])
      from pi have ps: "avl (heap s) sib" "d \<le> sh (heap s) (rootp sib) + 1" "sh (heap s) (rootp sib) \<le> d + 1"
        "pinv (heap s) (Suc (max (sh (heap s) (rootp sib)) d)) fs"
        by (simp_all add: RightOf)
      have e: "addrs (plug (Node sib p t) fs) = as"
        using as by (simp add: RightOf)
      have "\<exists>s'. rebalance_up (Some p) s = ok s' \<and> fin s' (addrs (plug (Node sib p t) fs)) \<and> same_data s s'"
      proof (rule node_step [OF wf' ps(1) at, where d = "Suc (max (sh (heap s) (rootp sib)) d)"])
        show "sh (heap s) (rootp t) \<le> sh (heap s) (rootp sib) + 2" using dt ps by arith
        show "sh (heap s) (rootp sib) \<le> sh (heap s) (rootp t) + 2" using dt ps by arith
        show "Suc (max (sh (heap s) (rootp sib)) d) \<le> Suc (max (sh (heap s) (rootp sib)) (sh (heap s) (rootp t)))"
          using dt ps by arith
        show "Suc (max (sh (heap s) (rootp sib)) (sh (heap s) (rootp t))) \<le> Suc (max (sh (heap s) (rootp sib)) d) + 1"
          using dt ps by arith
        show "Suc (max (sh (heap s) (rootp sib)) (sh (heap s) (rootp t))) = Suc (max (sh (heap s) (rootp sib)) d) + 1"
          if "sh (heap s) (rootp sib) = sh (heap s) (rootp t) + 2 \<or> sh (heap s) (rootp t) = sh (heap s) (rootp sib) + 2"
          using that dt ps(2,3) by arith
        show "pinv (heap s) (Suc (max (sh (heap s) (rootp sib)) d)) fs" by (rule ps(4))
        show "cont fs (addrs (plug (Node sib p t) fs))" by (rule Cons.IH)
      qed
      then show ?thesis by (simp add: RightOf e)
    qed
  qed
qed

lemma rebalance_up_arrive:
  assumes "arrive s t fs d"
  shows "\<exists>s'. rebalance_up (fpar fs) s = ok s' \<and> fin s' (addrs (plug t fs)) \<and> same_data s s'"
  using rebalance_up_cont [of fs "addrs (plug t fs)"] assms unfolding cont_def by blast

section \<open>Insertion\<close>

text \<open>
  \<open>ipath h k t\<close> is the list of frames \<open>bst_insert\<close> descends through for the key \<open>k\<close>, and
  \<open>ins h k a t\<close> the tree with the node \<open>a\<close> hung below it.
\<close>

definition kof :: "(addr \<Rightarrow> RBNode option) \<Rightarrow> addr \<Rightarrow> 32 word" where
  "kof h a = (case h a of None \<Rightarrow> 0 | Some n \<Rightarrow> key n)"

fun ipath :: "(addr \<Rightarrow> RBNode option) \<Rightarrow> 32 word \<Rightarrow> atree \<Rightarrow> frame list" where
  "ipath h k Leaf = []"
| "ipath h k (Node l b r) =
     (if k < kof h b then ipath h k l @ [LeftOf b r] else ipath h k r @ [RightOf b l])"

fun faddr :: "frame \<Rightarrow> addr" where
  "faddr (LeftOf a r) = a"
| "faddr (RightOf a l) = a"

fun fsib :: "frame \<Rightarrow> atree" where
  "fsib (LeftOf a r) = r"
| "fsib (RightOf a l) = l"

lemma plug_append: "plug t (fs @ gs) = plug (plug t fs) gs"
  by (induction t fs rule: plug.induct) simp_all

lemma plug_ipath: "plug Leaf (ipath h k t) = t"
  by (induction t) (simp_all add: plug_append)

lemma fnodes_ipath: "faddr ` set (ipath h k t) \<subseteq> set (addrs t)"
  by (induction t) auto

lemma set_fpre_fpost: "set (fpre fs @ fpost fs) = faddr ` set fs \<union> (\<Union>f \<in> set fs. set (addrs (fsib f)))"
proof (induction fs)
  case Nil
  then show ?case by simp
next
  case (Cons f fs)
  then show ?case by (cases f) auto
qed

lemma pinv_cong_sib:
  "(\<And>f a. f \<in> set fs \<Longrightarrow> a \<in> set (addrs (fsib f)) \<Longrightarrow> hw h' (Some a) = hw h (Some a)) \<Longrightarrow>
   pinv h' d fs = pinv h d fs"
proof (induction fs arbitrary: d)
  case Nil
  then show ?case by simp
next
  case (Cons f fs)
  have IH: "pinv h' e fs = pinv h e fs" for e
  proof (rule Cons.IH)
    fix g a assume "g \<in> set fs" "a \<in> set (addrs (fsib g))"
    then show "hw h' (Some a) = hw h (Some a)" by (intro Cons.prems [of g]) simp_all
  qed
  show ?case
  proof (cases f)
    case (LeftOf a r)
    have "avl h' r = avl h r" "sh h' (rootp r) = sh h (rootp r)"
      by (rule avl_cong sh_rootp_cong; rule Cons.prems [of f]; simp add: LeftOf)+
    then show ?thesis by (simp add: LeftOf IH)
  next
    case (RightOf a l)
    have "avl h' l = avl h l" "sh h' (rootp l) = sh h (rootp l)"
      by (rule avl_cong sh_rootp_cong; rule Cons.prems [of f]; simp add: RightOf)+
    then show ?thesis by (simp add: RightOf IH)
  qed
qed

lemma avl_plug:
  "avl h (plug u fs) \<Longrightarrow> u \<noteq> Leaf \<Longrightarrow> avl h u \<and> pinv h (sh h (rootp u)) fs"
proof (induction fs arbitrary: u)
  case Nil
  then show ?case by simp
next
  case (Cons f fs)
  show ?case
  proof (cases f)
    case (LeftOf q r)
    from Cons.prems have "avl h (plug (Node u q r) fs)" by (simp add: LeftOf)
    from Cons.IH [OF this] have 1: "avl h (Node u q r)" and 2: "pinv h (sh h (Some q)) fs" by simp_all
    from 1 Cons.prems(2) have "sh h (Some q) = Suc (max (sh h (rootp u)) (sh h (rootp r)))"
      "sh h (rootp u) \<le> sh h (rootp r) + 1" "sh h (rootp r) \<le> sh h (rootp u) + 1" "avl h u" "avl h r"
      by auto
    with 2 show ?thesis by (simp add: LeftOf)
  next
    case (RightOf q l)
    from Cons.prems have "avl h (plug (Node l q u) fs)" by (simp add: RightOf)
    from Cons.IH [OF this] have 1: "avl h (Node l q u)" and 2: "pinv h (sh h (Some q)) fs" by simp_all
    from 1 Cons.prems(2) have "sh h (Some q) = Suc (max (sh h (rootp l)) (sh h (rootp u)))"
      "sh h (rootp u) \<le> sh h (rootp l) + 1" "sh h (rootp l) \<le> sh h (rootp u) + 1" "avl h u" "avl h l"
      by auto
    with 2 show ?thesis by (simp add: RightOf)
  qed
qed

subsection \<open>\<open>bst_insert\<close> of a key that is not in the tree\<close>

fun ins :: "(addr \<Rightarrow> RBNode option) \<Rightarrow> 32 word \<Rightarrow> addr \<Rightarrow> atree \<Rightarrow> atree" where
  "ins h k a Leaf = Node Leaf a Leaf"
| "ins h k a (Node l b r) =
     (if k < kof h b then Node (ins h k a l) b r else Node l b (ins h k a r))"

lemma ins_plug: "ins h k a t = plug (Node Leaf a Leaf) (ipath h k t)"
  by (induction t) (simp_all add: plug_append)

lemma set_addrs_ins [simp]: "set (addrs (ins h k a t)) = insert a (set (addrs t))"
  by (induction t) auto

lemma distinct_addrs_ins: "distinct (addrs t) \<Longrightarrow> a \<notin> set (addrs t) \<Longrightarrow> distinct (addrs (ins h k a t))"
  by (induction t) auto

lemma rootp_ins: "rootp (ins h k a t) = (if t = Leaf then Some a else rootp t)"
  by (cases t) simp_all

lemma ins_not_Leaf [simp]: "ins h k a t \<noteq> Leaf"
  by (cases t) simp_all

lemma hupd_None [simp]: "(hupd p g h z = None) = (h z = None)"
  by (simp add: hupd_def)

lemma lnk_hupd_other: "p \<noteq> Some z \<Longrightarrow> lnk (hupd p g h) z = lnk h z"
  by (simp add: lnk_def hupd_def)

lemma lnk_hupd_height: "lnk (hupd p (\<lambda>m. m\<lparr>height := x\<rparr>) h) z = lnk h z"
  by (cases "h z") (simp_all add: lnk_def hupd_def)

lemma hw_hupd_other: "p \<noteq> Some z \<Longrightarrow> hw (hupd p g h) (Some z) = hw h (Some z)"
  by (simp add: hw_def hupd_def)

definition bst_frame :: "state \<Rightarrow> state \<Rightarrow> addr set \<Rightarrow> addr set \<Rightarrow> bool" where
  "bst_frame s s' A P = ((\<forall>z. z \<notin> A \<longrightarrow> heap s' z = heap s z)
     \<and> (\<forall>z. z \<notin> P \<longrightarrow> hw (heap s') (Some z) = hw (heap s) (Some z))
     \<and> (\<forall>z. pl (heap s') z = pl (heap s) z) \<and> (\<forall>z. (heap s' z = None) = (heap s z = None))
     \<and> rb_root s' = rb_root s \<and> streak s' = streak s \<and> next_addr s' = next_addr s)"

lemma bst_frame_refl [simp]: "bst_frame s s A P"
  by (simp add: bst_frame_def)

lemma bst_insert_Leaf: "bst_insert None node s = ok (node, s)"
  by (subst bst_insert.simps) simp

lemma bst_insert_left:
  assumes "heap s a = Some an" "heap s b = Some bn" "key an < key bn"
  shows "bst_insert (Some b) (Some a) s =
        bindR (bst_insert (left bn) (Some a) s) (\<lambda>(r, s1).
        bindR (wr (Some b) (\<lambda>x. x\<lparr>left := r\<rparr>) s1) (\<lambda>s2.
        bindR (rd (Some b) left s2) (\<lambda>l2.
        bindR (wr l2 (\<lambda>x. x\<lparr>parent := Some b\<rparr>) s2) (\<lambda>s3.
        bindR (update_height (Some b) s3) (\<lambda>s4.
        ok (Some b, s4))))))"
  by (subst bst_insert.simps) (simp add: assms)

lemma bst_insert_right:
  assumes "heap s a = Some an" "heap s b = Some bn" "key bn < key an"
  shows "bst_insert (Some b) (Some a) s =
        bindR (bst_insert (right bn) (Some a) s) (\<lambda>(r', s1).
        bindR (wr (Some b) (\<lambda>x. x\<lparr>right := r'\<rparr>) s1) (\<lambda>s2.
        bindR (rd (Some b) right s2) (\<lambda>r2.
        bindR (wr r2 (\<lambda>x. x\<lparr>parent := Some b\<rparr>) s2) (\<lambda>s3.
        bindR (update_height (Some b) s3) (\<lambda>s4.
        ok (Some b, s4))))))"
proof -
  from assms(3) have "\<not> key an < key bn" by simp
  then show ?thesis
    by (subst bst_insert.simps) (simp add: assms)
qed


lemma bst_step_left:
  assumes bn: "heap s b = Some bn" "parent bn = par" "left bn = rootp l" "right bn = rootp r"
    and an: "heap s a = Some an" "key an < key bn"
    and htr: "ht (heap s) (Some b) r"
    and d: "distinct (addrs (Node l b r))" "a \<notin> set (addrs (Node l b r))"
    and rec: "bst_insert (rootp l) (Some a) s = ok (rootp l', s1)"
    and l': "ht (heap s1) q l'" "set (addrs l') = insert a (set (addrs l))" "distinct (addrs l')" "l' \<noteq> Leaf"
    and fr: "bst_frame s s1 (insert a (set (addrs l))) P"
  shows "\<exists>s'. bst_insert (Some b) (Some a) s = ok (Some b, s') \<and> ht (heap s') par (Node l' b r)
     \<and> bst_frame s s' (insert a (set (addrs (Node l b r)))) (insert b P)"
proof -
  from l'(4) obtain c where c: "rootp l' = Some c" by (cases l') auto
  then have cin: "c \<in> set (addrs l')" by (rule rootp_in)
  with l'(2) d have cb: "c \<noteq> b" by auto
  from d have bA: "b \<notin> insert a (set (addrs l))" by auto
  with fr have b1: "heap s1 b = Some bn" by (simp add: bst_frame_def bn(1))
  from l'(1) c obtain cn where c1: "heap s1 c = Some cn"
    using ht_lv_root [OF l'(1)] by auto
  define X where "X = newh (hupd (Some c) (\<lambda>x. x\<lparr>parent := Some b\<rparr>) (hupd (Some b) (\<lambda>x. x\<lparr>left := Some c\<rparr>) (heap s1))) (bn\<lparr>left := Some c\<rparr>)"
  define s2 where "s2 = s1\<lparr>heap := hupd (Some b) (\<lambda>x. x\<lparr>left := Some c\<rparr>) (heap s1)\<rparr>"
  define s3 where "s3 = s2\<lparr>heap := hupd (Some c) (\<lambda>x. x\<lparr>parent := Some b\<rparr>) (heap s2)\<rparr>"
  define s4 where "s4 = s3\<lparr>heap := hupd (Some b) (\<lambda>m. m\<lparr>height := X\<rparr>) (heap s3)\<rparr>"
  have e2: "wr (Some b) (\<lambda>x. x\<lparr>left := Some c\<rparr>) s1 = ok s2"
    unfolding s2_def by (rule wr_exec) (simp_all add: b1)
  have b2: "heap s2 b = Some (bn\<lparr>left := Some c\<rparr>)"
    by (simp add: s2_def hupd_apply b1)
  have e3: "rd (Some b) left s2 = ok (Some c)"
    using b2 by simp
  have e4: "wr (Some c) (\<lambda>x. x\<lparr>parent := Some b\<rparr>) s2 = ok s3"
    unfolding s3_def by (rule wr_exec) (simp_all add: s2_def c1)
  have b3: "heap s3 b = Some (bn\<lparr>left := Some c\<rparr>)"
    using cb by (simp add: s3_def hupd_apply b2)
  have lr: "lv (heap s) (rootp r)" by (rule ht_lv_root [OF htr])
  have lr1: "lv (heap s1) (rootp r)"
    using lr fr by (cases "rootp r") (simp_all add: bst_frame_def)
  have e5: "update_height (Some b) s3 = ok s4"
    unfolding s4_def X_def
    using update_height_hupd [OF b3] lr1 c1 by (simp add: s3_def s2_def bn(4))
  have ex: "bst_insert (Some b) (Some a) s = ok (Some b, s4)"
    unfolding bst_insert_left [OF an(1) bn(1) an(2)] bn(3) rec
    by (simp add: c e2 e3 e4 e5)
  have h4: "heap s4 = hupd (Some b) (\<lambda>m. m\<lparr>height := X\<rparr>) (hupd (Some c) (\<lambda>x. x\<lparr>parent := Some b\<rparr>)
      (hupd (Some b) (\<lambda>x. x\<lparr>left := Some c\<rparr>) (heap s1)))"
    by (simp add: s4_def s3_def s2_def)
  have oth: "heap s4 z = heap s1 z" if "z \<noteq> b" "z \<noteq> c" for z
    using that by (simp add: h4 hupd_apply)
  have b4: "heap s4 b = Some (bn\<lparr>left := Some c, height := X\<rparr>)"
    using cb by (simp add: h4 hupd_apply b1)
  have c4: "heap s4 c = Some (cn\<lparr>parent := Some b\<rparr>)"
    using cb by (simp add: h4 hupd_apply c1)
  have htl: "ht (heap s4) (Some b) l'"
  proof (rule ht_reparent [OF l'(1) l'(3)])
    fix z assume "z \<in> set (addrs l')" "Some z \<noteq> rootp l'"
    with l'(2) d c have "z \<noteq> b" "z \<noteq> c" by auto
    then show "lnk (heap s4) z = lnk (heap s1) z" by (simp add: lnk_def oth)
  next
    fix z assume "rootp l' = Some z"
    with c have "z = c" by simp
    then show "lnk (heap s4) z = map_option (\<lambda>(l, r, p). (l, r, Some b)) (lnk (heap s1) z)"
      by (simp add: lnk_def c4 c1)
  qed
  have rs: "heap s4 z = heap s z" if "z \<in> set (addrs r)" for z
  proof -
    from that d l'(2) cin have "z \<noteq> b" "z \<noteq> c" "z \<notin> insert a (set (addrs l))" by auto
    with fr show ?thesis by (simp add: oth bst_frame_def)
  qed
  have "ht (heap s4) (Some b) r = ht (heap s) (Some b) r"
    by (rule ht_cong) (simp add: lnk_def rs)
  with htr have htr4: "ht (heap s4) (Some b) r" by simp
  have ht4: "ht (heap s4) par (Node l' b r)"
    using htl htr4 by (simp add: b4 bn c)
  have f1: "heap s4 z = heap s z" if "z \<notin> insert a (set (addrs (Node l b r)))" for z
  proof -
    from that l'(2) cin have "z \<noteq> b" "z \<noteq> c" "z \<notin> insert a (set (addrs l))" by auto
    with fr show ?thesis by (simp add: oth bst_frame_def)
  qed
  have f2: "hw (heap s4) (Some z) = hw (heap s) (Some z)" if "z \<notin> insert b P" for z
  proof -
    from that have "z \<noteq> b" "z \<notin> P" by auto
    then have "hw (heap s4) (Some z) = hw (heap s1) (Some z)"
      by (simp add: h4 hw_hupd_other hw_hupd)
    with fr \<open>z \<notin> P\<close> show ?thesis by (simp add: bst_frame_def)
  qed
  have f3: "pl (heap s4) z = pl (heap s) z" for z
    using fr by (simp add: h4 pl_hupd bst_frame_def)
  have f4: "(heap s4 z = None) = (heap s z = None)" for z
    using fr by (simp add: h4 bst_frame_def)
  have f5: "rb_root s4 = rb_root s" "streak s4 = streak s" "next_addr s4 = next_addr s"
    using fr by (simp_all add: s4_def s3_def s2_def bst_frame_def)
  have "bst_frame s s4 (insert a (set (addrs (Node l b r)))) (insert b P)"
    unfolding bst_frame_def using f1 f2 f3 f4 f5 by blast
  with ex ht4 show ?thesis by blast
qed

lemma bst_step_right:
  assumes bn: "heap s b = Some bn" "parent bn = par" "left bn = rootp r0" "right bn = rootp l"
    and an: "heap s a = Some an" "key bn < key an"
    and htr: "ht (heap s) (Some b) r0"
    and d: "distinct (addrs (Node r0 b l))" "a \<notin> set (addrs (Node r0 b l))"
    and rec: "bst_insert (rootp l) (Some a) s = ok (rootp l', s1)"
    and l': "ht (heap s1) q l'" "set (addrs l') = insert a (set (addrs l))" "distinct (addrs l')" "l' \<noteq> Leaf"
    and fr: "bst_frame s s1 (insert a (set (addrs l))) P"
  shows "\<exists>s'. bst_insert (Some b) (Some a) s = ok (Some b, s') \<and> ht (heap s') par (Node r0 b l')
     \<and> bst_frame s s' (insert a (set (addrs (Node r0 b l)))) (insert b P)"
proof -
  from l'(4) obtain c where c: "rootp l' = Some c" by (cases l') auto
  then have cin: "c \<in> set (addrs l')" by (rule rootp_in)
  with l'(2) d have cb: "c \<noteq> b" by auto
  from d have bA: "b \<notin> insert a (set (addrs l))" by auto
  with fr have b1: "heap s1 b = Some bn" by (simp add: bst_frame_def bn(1))
  from l'(1) c obtain cn where c1: "heap s1 c = Some cn"
    using ht_lv_root [OF l'(1)] by auto
  define X where "X = newh (hupd (Some c) (\<lambda>x. x\<lparr>parent := Some b\<rparr>) (hupd (Some b) (\<lambda>x. x\<lparr>right := Some c\<rparr>) (heap s1))) (bn\<lparr>right := Some c\<rparr>)"
  define s2 where "s2 = s1\<lparr>heap := hupd (Some b) (\<lambda>x. x\<lparr>right := Some c\<rparr>) (heap s1)\<rparr>"
  define s3 where "s3 = s2\<lparr>heap := hupd (Some c) (\<lambda>x. x\<lparr>parent := Some b\<rparr>) (heap s2)\<rparr>"
  define s4 where "s4 = s3\<lparr>heap := hupd (Some b) (\<lambda>m. m\<lparr>height := X\<rparr>) (heap s3)\<rparr>"
  have e2: "wr (Some b) (\<lambda>x. x\<lparr>right := Some c\<rparr>) s1 = ok s2"
    unfolding s2_def by (rule wr_exec) (simp_all add: b1)
  have b2: "heap s2 b = Some (bn\<lparr>right := Some c\<rparr>)"
    by (simp add: s2_def hupd_apply b1)
  have e3: "rd (Some b) right s2 = ok (Some c)"
    using b2 by simp
  have e4: "wr (Some c) (\<lambda>x. x\<lparr>parent := Some b\<rparr>) s2 = ok s3"
    unfolding s3_def by (rule wr_exec) (simp_all add: s2_def c1)
  have b3: "heap s3 b = Some (bn\<lparr>right := Some c\<rparr>)"
    using cb by (simp add: s3_def hupd_apply b2)
  have lr: "lv (heap s) (rootp r0)" by (rule ht_lv_root [OF htr])
  have lr1: "lv (heap s1) (rootp r0)"
    using lr fr by (cases "rootp r0") (simp_all add: bst_frame_def)
  have e5: "update_height (Some b) s3 = ok s4"
    unfolding s4_def X_def
    using update_height_hupd [OF b3] lr1 c1 by (simp add: s3_def s2_def bn(3))
  have ex: "bst_insert (Some b) (Some a) s = ok (Some b, s4)"
    unfolding bst_insert_right [OF an(1) bn(1) an(2)] bn(4) rec
    by (simp add: c e2 e3 e4 e5)
  have h4: "heap s4 = hupd (Some b) (\<lambda>m. m\<lparr>height := X\<rparr>) (hupd (Some c) (\<lambda>x. x\<lparr>parent := Some b\<rparr>)
      (hupd (Some b) (\<lambda>x. x\<lparr>right := Some c\<rparr>) (heap s1)))"
    by (simp add: s4_def s3_def s2_def)
  have oth: "heap s4 z = heap s1 z" if "z \<noteq> b" "z \<noteq> c" for z
    using that by (simp add: h4 hupd_apply)
  have b4: "heap s4 b = Some (bn\<lparr>right := Some c, height := X\<rparr>)"
    using cb by (simp add: h4 hupd_apply b1)
  have c4: "heap s4 c = Some (cn\<lparr>parent := Some b\<rparr>)"
    using cb by (simp add: h4 hupd_apply c1)
  have htl: "ht (heap s4) (Some b) l'"
  proof (rule ht_reparent [OF l'(1) l'(3)])
    fix z assume "z \<in> set (addrs l')" "Some z \<noteq> rootp l'"
    with l'(2) d c have "z \<noteq> b" "z \<noteq> c" by auto
    then show "lnk (heap s4) z = lnk (heap s1) z" by (simp add: lnk_def oth)
  next
    fix z assume "rootp l' = Some z"
    with c have "z = c" by simp
    then show "lnk (heap s4) z = map_option (\<lambda>(l, r, p). (l, r, Some b)) (lnk (heap s1) z)"
      by (simp add: lnk_def c4 c1)
  qed
  have rs: "heap s4 z = heap s z" if "z \<in> set (addrs r0)" for z
  proof -
    from that d l'(2) cin have "z \<noteq> b" "z \<noteq> c" "z \<notin> insert a (set (addrs l))" by auto
    with fr show ?thesis by (simp add: oth bst_frame_def)
  qed
  have "ht (heap s4) (Some b) r0 = ht (heap s) (Some b) r0"
    by (rule ht_cong) (simp add: lnk_def rs)
  with htr have htr4: "ht (heap s4) (Some b) r0" by simp
  have ht4: "ht (heap s4) par (Node r0 b l')"
    using htl htr4 by (simp add: b4 bn c)
  have f1: "heap s4 z = heap s z" if "z \<notin> insert a (set (addrs (Node r0 b l)))" for z
  proof -
    from that l'(2) cin have "z \<noteq> b" "z \<noteq> c" "z \<notin> insert a (set (addrs l))" by auto
    with fr show ?thesis by (simp add: oth bst_frame_def)
  qed
  have f2: "hw (heap s4) (Some z) = hw (heap s) (Some z)" if "z \<notin> insert b P" for z
  proof -
    from that have "z \<noteq> b" "z \<notin> P" by auto
    then have "hw (heap s4) (Some z) = hw (heap s1) (Some z)"
      by (simp add: h4 hw_hupd_other hw_hupd)
    with fr \<open>z \<notin> P\<close> show ?thesis by (simp add: bst_frame_def)
  qed
  have f3: "pl (heap s4) z = pl (heap s) z" for z
    using fr by (simp add: h4 pl_hupd bst_frame_def)
  have f4: "(heap s4 z = None) = (heap s z = None)" for z
    using fr by (simp add: h4 bst_frame_def)
  have f5: "rb_root s4 = rb_root s" "streak s4 = streak s" "next_addr s4 = next_addr s"
    using fr by (simp_all add: s4_def s3_def s2_def bst_frame_def)
  have "bst_frame s s4 (insert a (set (addrs (Node r0 b l)))) (insert b P)"
    unfolding bst_frame_def using f1 f2 f3 f4 f5 by blast
  with ex ht4 show ?thesis by blast
qed



lemma bst_insert_tree:
  assumes "ht (heap s) par t" "distinct (addrs t)" "a \<notin> set (addrs t)"
    and "heap s a = Some an" "left an = None" "right an = None"
    and "\<And>b. b \<in> set (addrs t) \<Longrightarrow> kof (heap s) b \<noteq> key an"
  shows "\<exists>s'. bst_insert (rootp t) (Some a) s = ok (rootp (ins (heap s) (key an) a t), s')
     \<and> ht (heap s') (if t = Leaf then parent an else par) (ins (heap s) (key an) a t)
     \<and> bst_frame s s' (insert a (set (addrs t))) (faddr ` set (ipath (heap s) (key an) t))"
  using assms
proof (induction t arbitrary: par)
  case Leaf
  then show ?case by (simp add: bst_insert_Leaf)
next
  case (Node l b r)
  let ?h = "heap s" and ?k = "key an"
  from Node.prems(1) obtain bn where bn: "?h b = Some bn" "parent bn = par" "left bn = rootp l"
      "right bn = rootp r" and hl: "ht ?h (Some b) l" and hr: "ht ?h (Some b) r"
    by (auto split: option.splits)
  have kb: "kof ?h b = key bn" by (simp add: kof_def bn)
  from Node.prems(7) [of b] have ne: "key bn \<noteq> ?k" by (simp add: kb)
  note an = Node.prems(4,5,6)
  show ?case
  proof (cases "?k < key bn")
    case True
    have "\<exists>s1. bst_insert (rootp l) (Some a) s = ok (rootp (ins ?h ?k a l), s1)
       \<and> ht (heap s1) (if l = Leaf then parent an else Some b) (ins ?h ?k a l)
       \<and> bst_frame s s1 (insert a (set (addrs l))) (faddr ` set (ipath ?h ?k l))"
    proof (rule Node.IH(1) [OF hl _ _ an])
      show "distinct (addrs l)" using Node.prems(2) by simp
      show "a \<notin> set (addrs l)" using Node.prems(3) by simp
      fix c assume "c \<in> set (addrs l)"
      then show "kof ?h c \<noteq> ?k" by (intro Node.prems(7)) simp
    qed
    then obtain s1 where rec: "bst_insert (rootp l) (Some a) s = ok (rootp (ins ?h ?k a l), s1)"
      and h1: "ht (heap s1) (if l = Leaf then parent an else Some b) (ins ?h ?k a l)"
      and fr: "bst_frame s s1 (insert a (set (addrs l))) (faddr ` set (ipath ?h ?k l))"
      by blast
    have dl: "distinct (addrs (ins ?h ?k a l))"
      using Node.prems(2,3) by (intro distinct_addrs_ins) simp_all
    from bst_step_left [OF bn an(1) True hr Node.prems(2,3) rec h1 _ dl _ fr]
    obtain s' where "bst_insert (Some b) (Some a) s = ok (Some b, s')"
      "ht (heap s') par (Node (ins ?h ?k a l) b r)"
      "bst_frame s s' (insert a (set (addrs (Node l b r)))) (insert b (faddr ` set (ipath ?h ?k l)))"
      by auto
    then show ?thesis
      using True by (auto simp: kb)
  next
    case False
    with ne have gt: "key bn < ?k" by simp
    have "\<exists>s1. bst_insert (rootp r) (Some a) s = ok (rootp (ins ?h ?k a r), s1)
       \<and> ht (heap s1) (if r = Leaf then parent an else Some b) (ins ?h ?k a r)
       \<and> bst_frame s s1 (insert a (set (addrs r))) (faddr ` set (ipath ?h ?k r))"
    proof (rule Node.IH(2) [OF hr _ _ an])
      show "distinct (addrs r)" using Node.prems(2) by simp
      show "a \<notin> set (addrs r)" using Node.prems(3) by simp
      fix c assume "c \<in> set (addrs r)"
      then show "kof ?h c \<noteq> ?k" by (intro Node.prems(7)) simp
    qed
    then obtain s1 where rec: "bst_insert (rootp r) (Some a) s = ok (rootp (ins ?h ?k a r), s1)"
      and h1: "ht (heap s1) (if r = Leaf then parent an else Some b) (ins ?h ?k a r)"
      and fr: "bst_frame s s1 (insert a (set (addrs r))) (faddr ` set (ipath ?h ?k r))"
      by blast
    have dl: "distinct (addrs (ins ?h ?k a r))"
      using Node.prems(2,3) by (intro distinct_addrs_ins) simp_all
    from bst_step_right [OF bn an(1) gt hl Node.prems(2,3) rec h1 _ dl _ fr]
    obtain s' where "bst_insert (Some b) (Some a) s = ok (Some b, s')"
      "ht (heap s') par (Node l b (ins ?h ?k a r))"
      "bst_frame s s' (insert a (set (addrs (Node l b r)))) (insert b (faddr ` set (ipath ?h ?k r)))"
      by auto
    then show ?thesis
      using False by (auto simp: kb)
  qed
qed

subsection \<open>The walk from the new node's parent\<close>

lemma sib_not_path:
  "distinct (fpre fs @ fpost fs) \<Longrightarrow> g \<in> set fs \<Longrightarrow> z \<in> set (addrs (fsib g)) \<Longrightarrow> z \<notin> faddr ` set fs"
proof (induction fs)
  case Nil
  then show ?case by simp
next
  case (Cons f fs)
  have sub: "faddr ` set fs \<subseteq> set (fpre fs @ fpost fs)"
    and sub2: "\<And>g. g \<in> set fs \<Longrightarrow> set (addrs (fsib g)) \<subseteq> set (fpre fs @ fpost fs)"
    unfolding set_fpre_fpost by auto
  show ?case
  proof (cases f)
    case (LeftOf q r)
    with Cons.prems sub sub2 Cons.IH show ?thesis by (auto; blast)
  next
    case (RightOf q l)
    with Cons.prems sub sub2 Cons.IH show ?thesis by (auto; blast)
  qed
qed


lemma reb_ins_root:
  assumes ht: "ht (heap s) None (Node Leaf a Leaf)" and rt: "rb_root s = Some a"
  shows "\<exists>s'. rebalance_up (Some a) s = ok s' \<and> fin s' [a] \<and> same_data s s'"
proof -
  have wf: "wf_focus s (Node Leaf a Leaf) []"
    using ht rt by (simp add: wf_focus_def)
  have "\<exists>s'. rebalance_up (Some a) s = ok s' \<and> fin s' (addrs (plug (Node Leaf a Leaf) [])) \<and> same_data s s'"
    by (rule node_step [OF wf, where d = 0]) (simp_all add: rebalance_up_cont)
  then show ?thesis by simp
qed

lemma reb_ins_left:
  assumes ht: "ht (heap s) None (plug (Node (Node Leaf a Leaf) p r) fs)"
    and rt: "rb_root s = rootp (plug (Node (Node Leaf a Leaf) p r) fs)"
    and d: "distinct (addrs (plug (Node (Node Leaf a Leaf) p r) fs))"
    and len: "length (addrs (plug (Node (Node Leaf a Leaf) p r) fs)) \<le> 2 ^ 32"
    and av: "avl h (plug (Node Leaf p r) fs)"
    and a0: "sh (heap s) (Some a) = 0"
    and fr: "\<And>z. z \<notin> insert p (faddr ` set fs) \<Longrightarrow> hw (heap s) (Some z) = hw h (Some z)"
  shows "\<exists>s'. rebalance_up (Some p) s = ok s' \<and> fin s' (addrs (plug (Node (Node Leaf a Leaf) p r) fs))
     \<and> same_data s s'"
proof -
  let ?l = "Node Leaf a Leaf"
  have wf: "wf_focus s (Node ?l p r) fs"
    using ht rt d len unfolding wf_focus_def ht_plug rootp_plug by simp
  from avl_plug [OF av] have av1: "avl h (Node Leaf p r)" and pv: "pinv h (sh h (Some p)) fs"
    by simp_all
  from d have dd: "distinct (fpre fs @ fpost fs)" "p \<notin> set (addrs r)" "p \<notin> set (fpre fs @ fpost fs)"
    "\<And>z. z \<in> set (addrs r) \<Longrightarrow> z \<notin> set (fpre fs @ fpost fs)"
    by (auto simp: addrs_plug)
  have fs_sub: "faddr ` set fs \<subseteq> set (fpre fs @ fpost fs)"
    unfolding set_fpre_fpost by auto
  have rz: "hw (heap s) (Some z) = hw h (Some z)" if "z \<in> set (addrs r)" for z
  proof (rule fr)
    from that dd fs_sub show "z \<notin> insert p (faddr ` set fs)" by auto
  qed
  have shr: "sh (heap s) (rootp r) = sh h (rootp r)"
    by (rule sh_rootp_cong) (rule rz)
  have ar: "avl (heap s) r"
    using av1 avl_cong [of r "heap s" h, OF rz] by simp
  have al: "avl (heap s) ?l"
    using a0 by simp
  have sz: "hw (heap s) (Some z) = hw h (Some z)" if "g \<in> set fs" "z \<in> set (addrs (fsib g))" for g z
  proof (rule fr)
    from sib_not_path [OF dd(1) that] have "z \<notin> faddr ` set fs" .
    moreover from that have "z \<in> set (fpre fs @ fpost fs)"
      unfolding set_fpre_fpost by auto
    with dd(3) have "z \<noteq> p" by auto
    ultimately show "z \<notin> insert p (faddr ` set fs)" by simp
  qed
  have pi: "pinv (heap s) (sh h (Some p)) fs"
    using pv pinv_cong_sib [of fs "heap s" h, OF sz] by simp
  from av1 have cs: "(sh h (Some p) = 0 \<and> r = Leaf) \<or>
      (sh h (Some p) = Suc (sh h (rootp r)) \<and> sh h (rootp r) \<le> 1)"
    by auto
  have sl: "sh (heap s) (rootp ?l) = 0" using a0 by simp
  show ?thesis
  proof (rule node_step [OF wf al ar _ _ _ _ _ pi rebalance_up_cont])
    show "sh (heap s) (rootp ?l) \<le> sh (heap s) (rootp r) + 2"
      unfolding sl by simp
    show "sh (heap s) (rootp r) \<le> sh (heap s) (rootp ?l) + 2"
      unfolding sl shr using cs by auto
    show "sh h (Some p) \<le> Suc (max (sh (heap s) (rootp ?l)) (sh (heap s) (rootp r)))"
      unfolding sl shr using cs by auto
    show "Suc (max (sh (heap s) (rootp ?l)) (sh (heap s) (rootp r))) \<le> sh h (Some p) + 1"
      unfolding sl shr using cs by auto
    assume "sh (heap s) (rootp ?l) = sh (heap s) (rootp r) + 2 \<or> sh (heap s) (rootp r) = sh (heap s) (rootp ?l) + 2"
    then show "Suc (max (sh (heap s) (rootp ?l)) (sh (heap s) (rootp r))) = sh h (Some p) + 1"
      unfolding sl shr using cs by auto
  qed
qed

lemma reb_ins_right:
  assumes ht: "ht (heap s) None (plug (Node r p (Node Leaf a Leaf)) fs)"
    and rt: "rb_root s = rootp (plug (Node r p (Node Leaf a Leaf)) fs)"
    and d: "distinct (addrs (plug (Node r p (Node Leaf a Leaf)) fs))"
    and len: "length (addrs (plug (Node r p (Node Leaf a Leaf)) fs)) \<le> 2 ^ 32"
    and av: "avl h (plug (Node r p Leaf) fs)"
    and a0: "sh (heap s) (Some a) = 0"
    and fr: "\<And>z. z \<notin> insert p (faddr ` set fs) \<Longrightarrow> hw (heap s) (Some z) = hw h (Some z)"
  shows "\<exists>s'. rebalance_up (Some p) s = ok s' \<and> fin s' (addrs (plug (Node r p (Node Leaf a Leaf)) fs))
     \<and> same_data s s'"
proof -
  let ?l = "Node Leaf a Leaf"
  have wf: "wf_focus s (Node r p ?l) fs"
    using ht rt d len unfolding wf_focus_def ht_plug rootp_plug by simp
  from avl_plug [OF av] have av1: "avl h (Node r p Leaf)" and pv: "pinv h (sh h (Some p)) fs"
    by simp_all
  from d have dd: "distinct (fpre fs @ fpost fs)" "p \<notin> set (addrs r)" "p \<notin> set (fpre fs @ fpost fs)"
    "\<And>z. z \<in> set (addrs r) \<Longrightarrow> z \<notin> set (fpre fs @ fpost fs)"
    by (auto simp: addrs_plug)
  have fs_sub: "faddr ` set fs \<subseteq> set (fpre fs @ fpost fs)"
    unfolding set_fpre_fpost by auto
  have rz: "hw (heap s) (Some z) = hw h (Some z)" if "z \<in> set (addrs r)" for z
  proof (rule fr)
    from that dd fs_sub show "z \<notin> insert p (faddr ` set fs)" by auto
  qed
  have shr: "sh (heap s) (rootp r) = sh h (rootp r)"
    by (rule sh_rootp_cong) (rule rz)
  have ar: "avl (heap s) r"
    using av1 avl_cong [of r "heap s" h, OF rz] by simp
  have al: "avl (heap s) ?l"
    using a0 by simp
  have sz: "hw (heap s) (Some z) = hw h (Some z)" if "g \<in> set fs" "z \<in> set (addrs (fsib g))" for g z
  proof (rule fr)
    from sib_not_path [OF dd(1) that] have "z \<notin> faddr ` set fs" .
    moreover from that have "z \<in> set (fpre fs @ fpost fs)"
      unfolding set_fpre_fpost by auto
    with dd(3) have "z \<noteq> p" by auto
    ultimately show "z \<notin> insert p (faddr ` set fs)" by simp
  qed
  have pi: "pinv (heap s) (sh h (Some p)) fs"
    using pv pinv_cong_sib [of fs "heap s" h, OF sz] by simp
  from av1 have cs: "(sh h (Some p) = 0 \<and> r = Leaf) \<or>
      (sh h (Some p) = Suc (sh h (rootp r)) \<and> sh h (rootp r) \<le> 1)"
    by auto
  have sl: "sh (heap s) (rootp ?l) = 0" using a0 by simp
  show ?thesis
  proof (rule node_step [OF wf ar al _ _ _ _ _ pi rebalance_up_cont])
    show "sh (heap s) (rootp r) \<le> sh (heap s) (rootp ?l) + 2"
      unfolding sl shr using cs by auto
    show "sh (heap s) (rootp ?l) \<le> sh (heap s) (rootp r) + 2"
      unfolding sl by simp
    show "sh h (Some p) \<le> Suc (max (sh (heap s) (rootp r)) (sh (heap s) (rootp ?l)))"
      unfolding sl shr using cs by auto
    show "Suc (max (sh (heap s) (rootp r)) (sh (heap s) (rootp ?l))) \<le> sh h (Some p) + 1"
      unfolding sl shr using cs by auto
    assume "sh (heap s) (rootp r) = sh (heap s) (rootp ?l) + 2 \<or> sh (heap s) (rootp ?l) = sh (heap s) (rootp r) + 2"
    then show "Suc (max (sh (heap s) (rootp r)) (sh (heap s) (rootp ?l))) = sh h (Some p) + 1"
      unfolding sl shr using cs by auto
  qed
qed

lemma reb_ins:
  assumes ht: "ht (heap s) None (plug (Node Leaf a Leaf) path)"
    and rt: "rb_root s = rootp (plug (Node Leaf a Leaf) path)"
    and d: "distinct (addrs (plug (Node Leaf a Leaf) path))"
    and len: "length (addrs (plug (Node Leaf a Leaf) path)) \<le> 2 ^ 32"
    and av: "avl h (plug Leaf path)"
    and a0: "sh (heap s) (Some a) = 0"
    and fr: "\<And>z. z \<notin> faddr ` set path \<Longrightarrow> hw (heap s) (Some z) = hw h (Some z)"
  shows "\<exists>s'. rebalance_up (if path = [] then Some a else fpar path) s = ok s'
     \<and> fin s' (addrs (plug (Node Leaf a Leaf) path)) \<and> same_data s s'"
proof (cases path rule: fpar.cases)
  case 1
  with reb_ins_root [of s a] ht rt show ?thesis by simp
next
  case (2 p r fs)
  show ?thesis
    using reb_ins_left [of s a p r fs h] ht rt d len av a0 fr unfolding 2 by simp
next
  case (3 p l fs)
  show ?thesis
    using reb_ins_right [of s l p a fs h] ht rt d len av a0 fr unfolding 3 by simp
qed

definition new_node :: "32 word \<Rightarrow> 8 word \<Rightarrow> float32 \<Rightarrow> 8 word \<Rightarrow> 8 word \<Rightarrow> RBNode" where
  "new_node k v c p col = \<lparr>key = k, val = v, polarity = p, confidence = c, color = col, height = 0,
     left = None, right = None, parent = None\<rparr>"

lemma rb_insert_exec:
  "rb_insert k v c p s =
     bindR (bst_insert (rb_root s) (Some (next_addr s))
        (s\<lparr>next_addr := Suc (next_addr s),
           heap := (heap s)(next_addr s \<mapsto> new_node k v c p (if rb_root s \<noteq> None then 1 else 0))\<rparr>))
       (\<lambda>(r, s6).
     bindR (rd (Some (next_addr s)) parent (s6\<lparr>rb_root := r\<rparr>)) (\<lambda>q.
       rebalance_up (if q \<noteq> None then q else Some (next_addr s)) (s6\<lparr>rb_root := r\<rparr>)))"
proof -
  have "bindR (rd n parent s7) (\<lambda>q. if q \<noteq> None then bindR (rd n parent s7) (\<lambda>p'. rebalance_up p' s7)
          else rebalance_up n s7)
      = bindR (rd n parent s7) (\<lambda>q. rebalance_up (if q \<noteq> None then q else n) s7)" for n s7
    by (rule bindR_cong) (auto simp: bindR_def)
  then show ?thesis
    by (simp add: rb_insert_def calloc_def wr_def zero_node_def new_node_def bindR_ok Let_def)
qed


definition INV :: "state \<Rightarrow> atree \<Rightarrow> bool" where
  "INV s t = (ht (heap s) None t \<and> rb_root s = rootp t \<and> distinct (addrs t)
     \<and> list_all (\<lambda>a. a < next_addr s) (addrs t)
     \<and> sorted_wrt (<) (map (kof (heap s)) (addrs t)) \<and> avl (heap s) t)"

lemma kof_pl: "pl h' z = pl h z \<Longrightarrow> kof h' z = kof h z"
  by (cases "h z"; cases "h' z") (auto simp: pl_def kof_def)

lemma sorted_ins:
  assumes "sorted_wrt (<) (map f (addrs t))" and "\<And>b. b \<in> set (addrs t) \<Longrightarrow> f b = kof h b"
    and "f a = k" and "k \<notin> f ` set (addrs t)"
  shows "sorted_wrt (<) (map f (addrs (ins h k a t)))"
  using assms
proof (induction t)
  case Leaf
  then show ?case by simp
next
  case (Node l b r)
  have fb: "f b = kof h b" by (rule Node.prems(2)) simp
  from Node.prems(4) have kb: "k \<noteq> f b" by auto
  from Node.prems(1) have sl: "sorted_wrt (<) (map f (addrs l))" and sr: "sorted_wrt (<) (map f (addrs r))"
    and lb: "\<And>x. x \<in> set (addrs l) \<Longrightarrow> f x < f b" and br: "\<And>y. y \<in> set (addrs r) \<Longrightarrow> f b < f y"
    and lr: "\<And>x y. x \<in> set (addrs l) \<Longrightarrow> y \<in> set (addrs r) \<Longrightarrow> f x < f y"
    by (auto simp: sorted_wrt_append)
  show ?case
  proof (cases "k < kof h b")
    case True
    have "sorted_wrt (<) (map f (addrs (ins h k a l)))"
      using Node.prems by (intro Node.IH(1) sl) auto
    moreover have "f a < f y" if "y \<in> set (addrs r)" for y
      using br [OF that] True fb Node.prems(3) by simp
    ultimately show ?thesis
      using True sr lb br lr fb Node.prems(3) by (auto simp: sorted_wrt_append)
  next
    case False
    with kb fb have gt: "f b < k" by simp
    have "sorted_wrt (<) (map f (addrs (ins h k a r)))"
      using Node.prems by (intro Node.IH(2) sr) auto
    moreover have "f x < f a" if "x \<in> set (addrs l)" for x
      using lb [OF that] gt Node.prems(3) by simp
    ultimately show ?thesis
      using False gt sl lb br lr fb Node.prems(3) by (auto simp: sorted_wrt_append)
  qed
qed

lemma keys_length_bound:
  fixes f :: "addr \<Rightarrow> 32 word"
  assumes "sorted_wrt (<) (map f as)"
  shows "length as \<le> 2 ^ 32"
proof -
  from assms have "distinct (map f as)" by (simp add: strict_sorted_iff)
  then have "card (set (map f as)) = length (map f as)"
    by (rule distinct_card)
  then have "length as = card (set (map f as))"
    by simp
  also have "\<dots> \<le> card (UNIV :: 32 word set)"
    by (rule card_mono) simp_all
  also have "\<dots> = 2 ^ 32" by (simp add: card_word)
  finally show ?thesis .
qed

subsection \<open>\<open>rb_insert\<close> of a key that is not in the tree\<close>

lemma INV_fresh: "INV s t \<Longrightarrow> next_addr s \<notin> set (addrs t)"
  by (auto simp: INV_def list_all_iff)

lemma rb_insert_INV:
  assumes inv: "INV s t" and nk: "k \<notin> kof (heap s) ` set (addrs t)"
  shows "\<exists>s' t'. rb_insert k v c p s = ok s' \<and> INV s' t'
     \<and> set (addrs t') = insert (next_addr s) (set (addrs t))
     \<and> next_addr s' = Suc (next_addr s) \<and> streak s' = streak s
     \<and> (\<forall>z. pl (heap s') z = (if z = next_addr s
          then Some (k, v, p, c, if rb_root s \<noteq> None then 1 else 0) else pl (heap s) z))"
proof -
  define a where "a = next_addr s"
  define N where "N = new_node k v c p (if rb_root s \<noteq> None then 1 else 0)"
  define s5 where "s5 = s\<lparr>next_addr := Suc (next_addr s), heap := (heap s)(a \<mapsto> N)\<rparr>"
  define path where "path = ipath (heap s5) k t"
  define t' where "t' = ins (heap s5) k a t"
  have t'p: "t' = plug (Node Leaf a Leaf) path"
    by (simp add: t'_def path_def ins_plug)
  from inv have na: "a \<notin> set (addrs t)"
    unfolding a_def by (rule INV_fresh)
  from inv have ht0: "ht (heap s) None t" and rt0: "rb_root s = rootp t" and d0: "distinct (addrs t)"
    and lt0: "\<And>z. z \<in> set (addrs t) \<Longrightarrow> z < next_addr s"
    and so0: "sorted_wrt (<) (map (kof (heap s)) (addrs t))" and av0: "avl (heap s) t"
    by (auto simp: INV_def list_all_iff)
  have h5: "heap s5 z = (if z = a then Some N else heap s z)" for z
    by (simp add: s5_def)
  have a5: "heap s5 a = Some N" by (simp add: h5)
  have Nf: "left N = None" "right N = None" "parent N = None" "key N = k" "height N = 0"
    by (simp_all add: N_def new_node_def)
  have o5: "heap s5 z = heap s z" if "z \<in> set (addrs t)" for z
    using that na by (auto simp: h5)
  have "ht (heap s5) None t = ht (heap s) None t"
    by (rule ht_cong) (simp add: lnk_def o5)
  with ht0 have ht5: "ht (heap s5) None t" by simp
  have k5: "kof (heap s5) z = kof (heap s) z" if "z \<in> set (addrs t)" for z
    using o5 [OF that] by (simp add: kof_def)
  have ka: "kof (heap s5) a = k" by (simp add: kof_def a5 Nf)
  have nk5: "kof (heap s5) b \<noteq> key N" if "b \<in> set (addrs t)" for b
    using nk that by (auto simp: k5 Nf)
  from bst_insert_tree [OF ht5 d0 na a5 Nf(1,2) nk5]
  obtain s6 where rec: "bst_insert (rootp t) (Some a) s5 = ok (rootp t', s6)"
    and ht6: "ht (heap s6) None t'"
    and fr: "bst_frame s5 s6 (insert a (set (addrs t))) (faddr ` set path)"
    unfolding Nf t'_def [symmetric] path_def [symmetric] by auto
  define s7 where "s7 = s6\<lparr>rb_root := rootp t'\<rparr>"
  from ht6 have "ht (heap s6) (fpar path) (Node Leaf a Leaf)"
    unfolding t'p ht_plug by simp
  then obtain n6 where a6: "heap s6 a = Some n6" "parent n6 = fpar path"
    by (auto split: option.splits)
  have e7: "rd (Some a) parent s7 = ok (fpar path)"
    using a6 by (simp add: s7_def)
  have fp: "(if fpar path \<noteq> None then fpar path else Some a) = (if path = [] then Some a else fpar path)"
    by (cases path rule: fpar.cases) simp_all
  have dt': "distinct (addrs t')"
    unfolding t'_def using d0 na by (rule distinct_addrs_ins)
  have so5: "sorted_wrt (<) (map (kof (heap s5)) (addrs t'))"
    unfolding t'_def
  proof (rule sorted_ins [where f = "kof (heap s5)"])
    show "kof (heap s5) a = k" by (rule ka)
    have m: "map (kof (heap s5)) (addrs t) = map (kof (heap s)) (addrs t)"
      by (rule map_cong) (simp_all add: k5)
    show "sorted_wrt (<) (map (kof (heap s5)) (addrs t))"
      unfolding m by (rule so0)
    show "k \<notin> kof (heap s5) ` set (addrs t)"
      using nk k5 by auto
  qed simp
  have len: "length (addrs t') \<le> 2 ^ 32"
    using so5 by (rule keys_length_bound)
  have pth: "faddr ` set path \<subseteq> set (addrs t)"
    unfolding path_def by (rule fnodes_ipath)
  have "avl (heap s5) t = avl (heap s) t"
    by (rule avl_cong) (simp add: hw_def o5)
  with av0 have av5: "avl (heap s5) (plug Leaf path)"
    by (simp add: path_def plug_ipath)
  have fr7: "hw (heap s7) (Some z) = hw (heap s5) (Some z)" if "z \<notin> faddr ` set path" for z
    using fr that by (simp add: bst_frame_def s7_def)
  from pth na have "a \<notin> faddr ` set path" by auto
  from fr7 [OF this] have a0: "sh (heap s7) (Some a) = 0"
    by (simp add: sh_def a5 Nf)
  have ht7: "ht (heap s7) None (plug (Node Leaf a Leaf) path)"
    using ht6 by (simp add: s7_def t'p)
  have rt7: "rb_root s7 = rootp (plug (Node Leaf a Leaf) path)"
    by (simp add: s7_def t'p)
  from reb_ins [OF ht7 rt7 dt' [unfolded t'p] len [unfolded t'p] av5 a0 fr7]
  obtain s' where reb: "rebalance_up (if path = [] then Some a else fpar path) s7 = ok s'"
    and fn: "fin s' (addrs t')" and sd: "same_data s7 s'"
    unfolding t'p by blast
  have "rb_insert k v c p s = bindR (bst_insert (rootp t) (Some a) s5) (\<lambda>(r, s6).
      bindR (rd (Some a) parent (s6\<lparr>rb_root := r\<rparr>)) (\<lambda>q.
        rebalance_up (if q \<noteq> None then q else Some a) (s6\<lparr>rb_root := r\<rparr>)))"
    unfolding rb_insert_exec a_def N_def s5_def rt0 ..
  also have "\<dots> = ok s'"
    by (simp only: rec bindR_ok prod.case s7_def [symmetric] e7 fp reb)
  finally have ex: "rb_insert k v c p s = ok s'" .
  from fn obtain T where T: "ht (heap s') None T" "rb_root s' = rootp T" "addrs T = addrs t'"
      "avl (heap s') T"
    unfolding fin_def by blast
  have pl7: "pl (heap s') z = pl (heap s5) z" for z
    using sd fr by (simp add: same_data_def bst_frame_def s7_def)
  have m': "map (kof (heap s')) (addrs t') = map (kof (heap s5)) (addrs t')"
    by (rule map_cong) (simp_all add: kof_pl [OF pl7])
  have so': "sorted_wrt (<) (map (kof (heap s')) (addrs T))"
    unfolding T(3) m' by (rule so5)
  have nx: "next_addr s' = Suc (next_addr s)" "streak s' = streak s"
    using sd fr by (simp_all add: same_data_def bst_frame_def s7_def s5_def)
  have st: "set (addrs T) = insert (next_addr s) (set (addrs t))"
    by (simp add: T(3) t'_def a_def)
  have "list_all (\<lambda>z. z < next_addr s') (addrs T)"
    unfolding list_all_iff st nx using lt0 by (auto simp: less_Suc_eq)
  with T dt' so' have I: "INV s' T"
    by (simp add: INV_def)
  have pp: "pl (heap s') z = (if z = next_addr s
          then Some (k, v, p, c, if rb_root s \<noteq> None then 1 else 0) else pl (heap s) z)" for z
    unfolding pl7 by (simp add: pl_def h5 a_def N_def new_node_def)
  from ex I st nx pp show ?thesis by blast
qed

section \<open>Find, mark, and sequences of operations\<close>

lemma ht_node:
  assumes "ht h par (Node l b r)"
  obtains bn where "h b = Some bn" "parent bn = par" "left bn = rootp l" "right bn = rootp r"
    "ht h (Some b) l" "ht h (Some b) r"
  using assms by (auto split: option.splits)

lemma find_loop_tree:
  "ht (heap s) par t \<Longrightarrow> \<exists>r. find_loop k (rootp t) s = ok r
     \<and> (case r of None \<Rightarrow> True | Some a \<Rightarrow> a \<in> set (addrs t))"
proof (induction t arbitrary: par)
  case Leaf
  show ?case by (subst find_loop.simps) simp
next
  case (Node l b r)
  from Node.prems obtain bn where bn: "heap s b = Some bn" "left bn = rootp l" "right bn = rootp r"
    and hl: "ht (heap s) (Some b) l" and hr: "ht (heap s) (Some b) r"
    by (rule ht_node)
  from Node.IH(1) [OF hl] obtain r1 where r1: "find_loop k (rootp l) s = ok r1"
    "case r1 of None \<Rightarrow> True | Some a \<Rightarrow> a \<in> set (addrs l)" by blast
  from Node.IH(2) [OF hr] obtain r2 where r2: "find_loop k (rootp r) s = ok r2"
    "case r2 of None \<Rightarrow> True | Some a \<Rightarrow> a \<in> set (addrs r)" by blast
  show ?case
    using r1 r2 by (subst find_loop.simps) (auto simp: bn split: option.splits)
qed

lemma find_loop_found:
  assumes "ht (heap s) par t" "sorted_wrt (<) (map (kof (heap s)) (addrs t))" "a \<in> set (addrs t)"
  shows "find_loop (kof (heap s) a) (rootp t) s = ok (Some a)"
  using assms
proof (induction t arbitrary: par)
  case Leaf
  then show ?case by simp
next
  case (Node l b r)
  let ?f = "kof (heap s)"
  from Node.prems(1) obtain bn where bn: "heap s b = Some bn" "left bn = rootp l" "right bn = rootp r"
    and hl: "ht (heap s) (Some b) l" and hr: "ht (heap s) (Some b) r"
    by (rule ht_node)
  have kb: "?f b = key bn" by (simp add: kof_def bn)
  from Node.prems(2) have sl: "sorted_wrt (<) (map ?f (addrs l))" and sr: "sorted_wrt (<) (map ?f (addrs r))"
    and lb: "\<And>x. x \<in> set (addrs l) \<Longrightarrow> ?f x < ?f b" and br: "\<And>y. y \<in> set (addrs r) \<Longrightarrow> ?f b < ?f y"
    by (auto simp: sorted_wrt_append)
  from Node.prems(3) consider "a \<in> set (addrs l)" | "a = b" | "a \<in> set (addrs r)" by auto
  then show ?case
  proof cases
    case 1
    from lb [OF 1] have "?f a < key bn" "?f a \<noteq> key bn" by (simp_all add: kb)
    with Node.IH(1) [OF hl sl 1] show ?thesis
      by (subst find_loop.simps) (simp add: bn)
  next
    case 2
    then show ?thesis
      by (subst find_loop.simps) (simp add: bn kb)
  next
    case 3
    from br [OF 3] have "\<not> ?f a < key bn" "?f a \<noteq> key bn" by (auto simp: kb)
    with Node.IH(2) [OF hr sr 3] show ?thesis
      by (subst find_loop.simps) (simp add: bn)
  qed
qed

lemma subtree_keys_tree:
  "ht (heap s) par t \<Longrightarrow> subtree_keys (rootp t) s = Some (map (kof (heap s)) (addrs t))"
proof (induction t arbitrary: par)
  case Leaf
  show ?case by (subst subtree_keys.simps) simp
next
  case (Node l b r)
  from Node.prems obtain bn where bn: "heap s b = Some bn" "left bn = rootp l" "right bn = rootp r"
    and hl: "ht (heap s) (Some b) l" and hr: "ht (heap s) (Some b) r"
    by (rule ht_node)
  show ?case
    by (subst subtree_keys.simps) (simp add: bn Node.IH(1) [OF hl] Node.IH(2) [OF hr] kof_def)
qed

lemma bst_ordered_tree:
  assumes "ht (heap s) par t" "sorted_wrt (<) (map (kof (heap s)) (addrs t))"
  shows "bst_ordered (rootp t) s = Some True"
  using assms
proof (induction t arbitrary: par)
  case Leaf
  show ?case by (subst bst_ordered.simps) simp
next
  case (Node l b r)
  let ?f = "kof (heap s)"
  from Node.prems(1) obtain bn where bn: "heap s b = Some bn" "left bn = rootp l" "right bn = rootp r"
    and hl: "ht (heap s) (Some b) l" and hr: "ht (heap s) (Some b) r"
    by (rule ht_node)
  have kb: "?f b = key bn" by (simp add: kof_def bn)
  from Node.prems(2) have sl: "sorted_wrt (<) (map ?f (addrs l))" and sr: "sorted_wrt (<) (map ?f (addrs r))"
    and lb: "\<And>x. x \<in> set (addrs l) \<Longrightarrow> ?f x < key bn" and br: "\<And>y. y \<in> set (addrs r) \<Longrightarrow> key bn < ?f y"
    by (auto simp: sorted_wrt_append kb)
  show ?case
    by (subst bst_ordered.simps)
       (simp add: bn Node.IH(1) [OF hl sl] Node.IH(2) [OF hr sr] subtree_keys_tree [OF hl]
          subtree_keys_tree [OF hr] list_all_iff lb br)
qed

lemma INV_init: "INV init_state Leaf"
  by (simp add: INV_def init_state_def)

lemma INV_bst_ordered: "INV s t \<Longrightarrow> bst_ordered (rb_root s) s = Some True"
  by (auto simp: INV_def intro: bst_ordered_tree)

lemma INV_subtree_keys: "INV s t \<Longrightarrow> subtree_keys (rb_root s) s = Some (map (kof (heap s)) (addrs t))"
  by (auto simp: INV_def intro: subtree_keys_tree)

lemma INV_find:
  assumes "INV s t"
  shows "\<exists>r. find' k s = ok r \<and> (case r of None \<Rightarrow> True | Some a \<Rightarrow> a \<in> set (addrs t))"
  using assms find_loop_tree [of s None t k] by (simp add: INV_def find'_def)

lemma INV_find_found:
  assumes "INV s t" "a \<in> set (addrs t)"
  shows "find' (kof (heap s) a) s = ok (Some a)"
  using assms find_loop_found [of s None t a] by (simp add: INV_def find'_def)

subsection \<open>\<open>mark_measurement\<close> keeps the tree\<close>

lemma INV_streak [simp]: "INV (s\<lparr>streak := f\<rparr>) t = INV s t"
  by (simp add: INV_def)

definition payload_only :: "(RBNode \<Rightarrow> RBNode) \<Rightarrow> bool" where
  "payload_only g = (\<forall>n. key (g n) = key n \<and> height (g n) = height n \<and> left (g n) = left n
     \<and> right (g n) = right n \<and> parent (g n) = parent n)"

lemma payload_only_simps [simp]:
  "payload_only (\<lambda>x. x\<lparr>confidence := c\<rparr>)" "payload_only (\<lambda>x. x\<lparr>polarity := p\<rparr>)"
  "payload_only (\<lambda>x. x\<lparr>val := v\<rparr>)"
  by (simp_all add: payload_only_def)

definition upd_rel :: "state \<Rightarrow> state \<Rightarrow> atree \<Rightarrow> bool" where
  "upd_rel s s' t = (INV s' t \<and> next_addr s' = next_addr s \<and> streak s' = streak s
     \<and> (\<forall>z. kof (heap s') z = kof (heap s) z))"

lemma wr_INV:
  assumes inv: "INV s t" and a: "a \<in> set (addrs t)" and g: "payload_only g"
  shows "\<exists>s' n. wr (Some a) g s = ok s' \<and> upd_rel s s' t \<and> heap s a = Some n
     \<and> heap s' a = Some (g n)"
proof -
  from inv have ht0: "ht (heap s) None t" by (simp add: INV_def)
  from ht_live [OF ht0 a] obtain n where n: "heap s a = Some n" by auto
  then have lv: "lv (heap s) (Some a)" by simp
  define s' where "s' = s\<lparr>heap := hupd (Some a) g (heap s)\<rparr>"
  have e: "wr (Some a) g s = ok s'"
    unfolding s'_def using lv by (intro wr_exec) simp_all
  have l: "lnk (heap s') z = lnk (heap s) z" for z
    using g by (cases "heap s z") (simp_all add: s'_def lnk_def hupd_apply payload_only_def)
  have h: "hw (heap s') (Some z) = hw (heap s) (Some z)" for z
    using g by (simp add: s'_def hw_hupd payload_only_def)
  have k: "kof (heap s') z = kof (heap s) z" for z
    using g by (cases "heap s z") (simp_all add: s'_def kof_def hupd_apply payload_only_def)
  have 1: "ht (heap s') None t = ht (heap s) None t"
    by (rule ht_cong) (rule l)
  have 2: "avl (heap s') t = avl (heap s) t"
    by (rule avl_cong) (rule h)
  have 3: "map (kof (heap s')) (addrs t) = map (kof (heap s)) (addrs t)"
    by (rule map_cong) (simp_all add: k)
  have "INV s' t"
    using inv unfolding INV_def 1 2 3 by (simp add: s'_def)
  moreover have "heap s' a = Some (g n)"
    by (simp add: s'_def hupd_apply n)
  ultimately show ?thesis
    using e k n by (auto simp: upd_rel_def s'_def)
qed

lemma upd_rel_trans: "upd_rel s s1 t \<Longrightarrow> upd_rel s1 s2 t \<Longrightarrow> upd_rel s s2 t"
  by (simp add: upd_rel_def)

lemma upd_rel_refl: "INV s t \<Longrightarrow> upd_rel s s t"
  by (simp add: upd_rel_def)

definition mark_rel :: "state \<Rightarrow> state \<Rightarrow> atree \<Rightarrow> bool" where
  "mark_rel s s' t = (INV s' t \<and> next_addr s' = next_addr s
     \<and> (\<forall>z. kof (heap s') z = kof (heap s) z)
     \<and> (\<forall>j. streak s' j = streak s j \<or> streak s' j = streak s j + 1))"

lemma mark_INV:
  assumes inv: "INV s t"
  shows "(\<not> (f32_less c PRUNE_THRESHOLD \<or> p = POLARITY_NEG)
        \<and> mark_measurement k c p s = fail Undeclared)
     \<or> (streak s (unat (k AND 0xFF)) = INT_MAX \<and> mark_measurement k c p s = fail SignedOverflow)
     \<or> (\<exists>s'. mark_measurement k c p s = ok s' \<and> mark_rel s s' t)"
proof -
  let ?i = "unat (k AND 0xFF)"
  from INV_find [OF inv, of k] obtain r where r: "find' k s = ok r"
    "case r of None \<Rightarrow> True | Some a \<Rightarrow> a \<in> set (addrs t)" by blast
  show ?thesis
  proof (cases r)
    case None
    with r inv show ?thesis
      by (simp add: mark_measurement_def mark_rel_def)
  next
    case (Some a)
    with r have a: "a \<in> set (addrs t)" by simp
    from wr_INV [OF inv a, of "\<lambda>x. x\<lparr>confidence := c\<rparr>"] obtain s1 where
      e1: "wr (Some a) (\<lambda>x. x\<lparr>confidence := c\<rparr>) s = ok s1" and u1: "upd_rel s s1 t" by auto
    then have inv1: "INV s1 t" by (simp add: upd_rel_def)
    have "\<exists>s2 n2. (if p \<noteq> 0 then wr (Some a) (\<lambda>x. x\<lparr>polarity := p\<rparr>) s1 else ok s1) = ok s2
        \<and> upd_rel s1 s2 t \<and> heap s2 a = Some n2 \<and> (p \<noteq> 0 \<longrightarrow> polarity n2 = p)"
    proof (cases "p = 0")
      case True
      from inv1 have "ht (heap s1) None t" by (simp add: INV_def)
      from ht_live [OF this a] obtain n1 where "heap s1 a = Some n1" by auto
      with True upd_rel_refl [OF inv1] show ?thesis by auto
    next
      case False
      from wr_INV [OF inv1 a, of "\<lambda>x. x\<lparr>polarity := p\<rparr>"] False show ?thesis by auto
    qed
    then obtain s2 n2 where e2: "(if p \<noteq> 0 then wr (Some a) (\<lambda>x. x\<lparr>polarity := p\<rparr>) s1 else ok s1) = ok s2"
      and u2: "upd_rel s1 s2 t" and n2: "heap s2 a = Some n2" and pn: "p \<noteq> 0 \<longrightarrow> polarity n2 = p"
      by blast
    from upd_rel_trans [OF u1 u2] have u02: "upd_rel s s2 t" .
    then have inv2: "INV s2 t" by (simp add: upd_rel_def)
    have e3: "rd (Some a) polarity s2 = ok (polarity n2)" using n2 by simp
    have st2: "streak s2 = streak s" using u02 by (simp add: upd_rel_def)
    have m: "mark_measurement k c p s =
       (if f32_less c PRUNE_THRESHOLD \<or> polarity n2 = POLARITY_NEG then
         (if streak s2 ?i = INT_MAX then fail SignedOverflow else
          let s3 = s2\<lparr>streak := (streak s2)(?i := streak s2 ?i + 1)\<rparr> in
          if streak s3 ?i \<ge> PRUNE_STREAK then
            bindR (wr (Some a) (\<lambda>x. x\<lparr>val := 0\<rparr>) s3) (\<lambda>s4.
            wr (Some a) (\<lambda>x. x\<lparr>confidence := Finite 0\<rparr>) s4)
          else ok s3)
       else fail Undeclared)"
      unfolding mark_measurement_def r(1) Some
      by (simp only: bindR_ok e1 e2 e3 option.distinct if_False Let_def)
    show ?thesis
    proof (cases "f32_less c PRUNE_THRESHOLD \<or> polarity n2 = POLARITY_NEG")
      case False
      with pn have "\<not> (f32_less c PRUNE_THRESHOLD \<or> p = POLARITY_NEG)"
        by (auto simp: POLARITY_NEG_def)
      with False m show ?thesis by auto
    next
      case True
      show ?thesis
      proof (cases "streak s ?i = INT_MAX")
        case True
        with \<open>f32_less c PRUNE_THRESHOLD \<or> polarity n2 = POLARITY_NEG\<close> m st2 show ?thesis by auto
      next
        case ne: False
        define s3 where "s3 = s2\<lparr>streak := (streak s2)(?i := streak s2 ?i + 1)\<rparr>"
        have inv3: "INV s3 t" using inv2 by (simp add: s3_def)
        have r3: "mark_rel s s3 t"
          using u02 by (simp add: mark_rel_def upd_rel_def s3_def)
        from wr_INV [OF inv3 a, of "\<lambda>x. x\<lparr>val := 0\<rparr>"] obtain s4 where
          e4: "wr (Some a) (\<lambda>x. x\<lparr>val := 0\<rparr>) s3 = ok s4" and u4: "upd_rel s3 s4 t" by auto
        then have inv4: "INV s4 t" by (simp add: upd_rel_def)
        from wr_INV [OF inv4 a, of "\<lambda>x. x\<lparr>confidence := Finite 0\<rparr>"] obtain s5 where
          e5: "wr (Some a) (\<lambda>x. x\<lparr>confidence := Finite 0\<rparr>) s4 = ok s5" and u5: "upd_rel s4 s5 t" by auto
        from upd_rel_trans [OF u4 u5] r3 have r5: "mark_rel s s5 t"
          by (simp add: mark_rel_def upd_rel_def)
        from ne st2 have ne2: "streak s2 ?i \<noteq> INT_MAX" by simp
        have "mark_measurement k c p s = (if streak s3 ?i \<ge> PRUNE_STREAK then ok s5 else ok s3)"
          unfolding m
          by (simp only: True if_True ne2 if_False Let_def s3_def [symmetric] e4 e5 bindR_ok)
        with r3 r5 show ?thesis by auto
      qed
    qed
  qed
qed

subsection \<open>An insert of a key that is in the tree does not return\<close>

text \<open>
  \<open>bst_insert\<close> frees the new node when it meets the key, and \<open>rb_insert\<close> then reads
  \<open>n->parent\<close> from it.
\<close>

lemma wr_dead: "wr p g s = ok s' \<Longrightarrow> heap s a = None \<Longrightarrow> heap s' a = None"
  by (auto simp: wr_def split: option.splits)

lemma update_height_dead: "update_height p s = ok s' \<Longrightarrow> heap s a = None \<Longrightarrow> heap s' a = None"
  by (auto simp: update_height_def bindR_eq_ok split: if_splits dest: wr_dead)

lemma free_dead: "free (Some a) s = ok s' \<Longrightarrow> heap s' a = None"
  by (auto simp: free_def split: option.splits)

lemma bst_insert_eq_dead:
  assumes "heap s a = Some an" "heap s b = Some bn" "key an = key bn"
    and "bst_insert (Some b) (Some a) s = ok (r, s')"
  shows "heap s' a = None"
proof -
  have "bst_insert (Some b) (Some a) s =
        bindR (rd (Some a) val s) (\<lambda>v.
        bindR (wr (Some b) (\<lambda>x. x\<lparr>val := v\<rparr>) s) (\<lambda>s1.
        bindR (rd (Some a) confidence s1) (\<lambda>c.
        bindR (wr (Some b) (\<lambda>x. x\<lparr>confidence := c\<rparr>) s1) (\<lambda>s2.
        bindR (rd (Some a) polarity s2) (\<lambda>p.
        bindR (wr (Some b) (\<lambda>x. x\<lparr>polarity := p\<rparr>) s2) (\<lambda>s3.
        bindR (free (Some a) s3) (\<lambda>s4.
        ok (Some b, s4))))))))"
    by (subst bst_insert.simps) (simp add: assms(1,2,3))
  with assms(4) show ?thesis
    by (auto simp: bindR_eq_ok dest: free_dead)
qed

lemma bst_insert_dup:
  assumes "ht (heap s) par t" "sorted_wrt (<) (map (kof (heap s)) (addrs t))"
    and "heap s a = Some an" "key an \<in> kof (heap s) ` set (addrs t)"
    and "bst_insert (rootp t) (Some a) s = ok (r, s')"
  shows "heap s' a = None"
  using assms
proof (induction t arbitrary: par r s')
  case Leaf
  then show ?case by simp
next
  case (Node l b r0)
  let ?f = "kof (heap s)"
  from Node.prems(1) obtain bn where bn: "heap s b = Some bn" "left bn = rootp l" "right bn = rootp r0"
    and hl: "ht (heap s) (Some b) l" and hr: "ht (heap s) (Some b) r0"
    by (rule ht_node)
  have kb: "?f b = key bn" by (simp add: kof_def bn)
  from Node.prems(2) have sl: "sorted_wrt (<) (map ?f (addrs l))" and sr: "sorted_wrt (<) (map ?f (addrs r0))"
    and lb: "\<And>x. x \<in> set (addrs l) \<Longrightarrow> ?f x < key bn" and br: "\<And>y. y \<in> set (addrs r0) \<Longrightarrow> key bn < ?f y"
    by (auto simp: sorted_wrt_append kb)
  note an = Node.prems(3)
  from Node.prems(5) have run: "bst_insert (Some b) (Some a) s = ok (r, s')" by simp
  consider (lt) "key an < key bn" | (eq) "key an = key bn" | (gt) "key bn < key an"
    by (cases "key an < key bn"; cases "key an = key bn") auto
  then show ?case
  proof cases
    case lt
    have kin: "key an \<in> ?f ` set (addrs l)"
    proof -
      from Node.prems(4) obtain z where z: "z \<in> set (addrs (Node l b r0))" "key an = ?f z" by auto
      with lt br [of z] kb have "z \<in> set (addrs l)" by (cases "z \<in> set (addrs r0)") auto
      with z show ?thesis by auto
    qed
    from run [unfolded bst_insert_left [OF an bn(1) lt] bn(2)]
    obtain r1 s1 s2 l2 s3 where rec: "bst_insert (rootp l) (Some a) s = ok (r1, s1)"
      and w: "wr (Some b) (\<lambda>x. x\<lparr>left := r1\<rparr>) s1 = ok s2"
        "wr l2 (\<lambda>x. x\<lparr>parent := Some b\<rparr>) s2 = ok s3" "update_height (Some b) s3 = ok s'"
      by (auto simp: bindR_eq_ok)
    from Node.IH(1) [OF hl sl an kin rec] have "heap s1 a = None" .
    then show ?thesis
      using w by (blast dest: wr_dead update_height_dead)
  next
    case eq
    from bst_insert_eq_dead [OF an bn(1) eq run] show ?thesis .
  next
    case gt
    have kin: "key an \<in> ?f ` set (addrs r0)"
    proof -
      from Node.prems(4) obtain z where z: "z \<in> set (addrs (Node l b r0))" "key an = ?f z" by auto
      with gt lb [of z] kb have "z \<in> set (addrs r0)" by (cases "z \<in> set (addrs l)") auto
      with z show ?thesis by auto
    qed
    from run [unfolded bst_insert_right [OF an bn(1) gt] bn(3)]
    obtain r1 s1 s2 l2 s3 where rec: "bst_insert (rootp r0) (Some a) s = ok (r1, s1)"
      and w: "wr (Some b) (\<lambda>x. x\<lparr>right := r1\<rparr>) s1 = ok s2"
        "wr l2 (\<lambda>x. x\<lparr>parent := Some b\<rparr>) s2 = ok s3" "update_height (Some b) s3 = ok s'"
      by (auto simp: bindR_eq_ok)
    from Node.IH(2) [OF hr sr an kin rec] have "heap s1 a = None" .
    then show ?thesis
      using w by (blast dest: wr_dead update_height_dead)
  qed
qed

lemma rb_insert_dup:
  assumes inv: "INV s t" and k: "k \<in> kof (heap s) ` set (addrs t)"
  shows "rb_insert k v c p s \<noteq> ok s'"
proof
  assume ex: "rb_insert k v c p s = ok s'"
  define a where "a = next_addr s"
  define N where "N = new_node k v c p (if rb_root s \<noteq> None then 1 else 0)"
  define s5 where "s5 = s\<lparr>next_addr := Suc (next_addr s), heap := (heap s)(a \<mapsto> N)\<rparr>"
  from inv have na: "a \<notin> set (addrs t)"
    unfolding a_def by (rule INV_fresh)
  from inv have ht0: "ht (heap s) None t" and rt0: "rb_root s = rootp t"
    and so0: "sorted_wrt (<) (map (kof (heap s)) (addrs t))"
    by (auto simp: INV_def)
  have a5: "heap s5 a = Some N" by (simp add: s5_def)
  have o5: "heap s5 z = heap s z" if "z \<in> set (addrs t)" for z
    using that na by (auto simp: s5_def)
  have "ht (heap s5) None t = ht (heap s) None t"
    by (rule ht_cong) (simp add: lnk_def o5)
  with ht0 have ht5: "ht (heap s5) None t" by simp
  have m: "map (kof (heap s5)) (addrs t) = map (kof (heap s)) (addrs t)"
    by (rule map_cong) (simp_all add: kof_def o5)
  have so5: "sorted_wrt (<) (map (kof (heap s5)) (addrs t))"
    unfolding m by (rule so0)
  have "kof (heap s5) ` set (addrs t) = kof (heap s) ` set (addrs t)"
    using arg_cong [OF m, of set] by simp
  with k have k5: "key N \<in> kof (heap s5) ` set (addrs t)"
    by (simp add: N_def new_node_def)
  have "rb_insert k v c p s = bindR (bst_insert (rootp t) (Some a) s5) (\<lambda>(r, s6).
      bindR (rd (Some a) parent (s6\<lparr>rb_root := r\<rparr>)) (\<lambda>q.
        rebalance_up (if q \<noteq> None then q else Some a) (s6\<lparr>rb_root := r\<rparr>)))"
    unfolding rb_insert_exec a_def N_def s5_def rt0 ..
  with ex obtain r s6 q where rec: "bst_insert (rootp t) (Some a) s5 = ok (r, s6)"
    and rdp: "rd (Some a) parent (s6\<lparr>rb_root := r\<rparr>) = ok q"
    by (auto simp: bindR_eq_ok)
  from bst_insert_dup [OF ht5 so5 a5 k5 rec] have "heap s6 a = None" .
  with rdp show False by simp
qed

subsection \<open>Sequences of operations\<close>

lemma kof_of_pl: "kof h z = (case pl h z of None \<Rightarrow> 0 | Some x \<Rightarrow> fst x)"
  by (cases "h z") (simp_all add: kof_def pl_def)

lemma rb_insert_keys:
  assumes inv: "INV s t" and nk: "k \<notin> kof (heap s) ` set (addrs t)"
  shows "\<exists>s' t'. rb_insert k v c p s = ok s' \<and> INV s' t'
     \<and> kof (heap s') ` set (addrs t') = insert k (kof (heap s) ` set (addrs t))
     \<and> streak s' = streak s"
proof -
  from rb_insert_INV [OF inv nk, of v c p] obtain s' t' where
    ex: "rb_insert k v c p s = ok s'" and inv': "INV s' t'"
    and st: "set (addrs t') = insert (next_addr s) (set (addrs t))"
    and sk: "streak s' = streak s"
    and pp: "\<And>z. pl (heap s') z = (if z = next_addr s
          then Some (k, v, p, c, if rb_root s \<noteq> None then 1 else 0) else pl (heap s) z)"
    by blast
  have ka: "kof (heap s') (next_addr s) = k"
    by (simp add: kof_of_pl pp)
  have ko: "kof (heap s') z = kof (heap s) z" if "z \<noteq> next_addr s" for z
    using that by (simp add: kof_of_pl pp)
  have "kof (heap s') z = kof (heap s) z" if "z \<in> set (addrs t)" for z
  proof (rule ko)
    from INV_fresh [OF inv] that show "z \<noteq> next_addr s" by auto
  qed
  then have "kof (heap s') ` set (addrs t) = kof (heap s) ` set (addrs t)"
    by (intro image_cong) simp_all
  then have "kof (heap s') ` set (addrs t') = insert k (kof (heap s) ` set (addrs t))"
    by (simp add: st ka)
  with ex inv' sk show ?thesis by blast
qed

lemma apply_op_partial:
  assumes "INV s t" "apply_op x s = ok s'"
  shows "\<exists>t'. INV s' t'"
proof (cases x)
  case (Insert k v c p)
  show ?thesis
  proof (cases "k \<in> kof (heap s) ` set (addrs t)")
    case True
    from rb_insert_dup [OF assms(1) True] assms(2) show ?thesis by (simp add: Insert)
  next
    case False
    from rb_insert_keys [OF assms(1) False, of v c p] assms(2) show ?thesis
      by (auto simp: Insert)
  qed
next
  case (Find k)
  with assms show ?thesis by (auto simp: bindR_eq_ok)
next
  case (Mark k c p)
  from mark_INV [OF assms(1), where k = k and c = c and p = p] assms(2) show ?thesis
    by (auto simp: Mark mark_rel_def)
qed

lemma run_partial:
  "INV s t \<Longrightarrow> run ops s = ok s' \<Longrightarrow> \<exists>t'. INV s' t'"
proof (induction ops arbitrary: s t)
  case Nil
  then show ?case by auto
next
  case (Cons x xs)
  from Cons.prems(2) obtain s1 where 1: "apply_op x s = ok s1" and 2: "run xs s1 = ok s'"
    by (auto simp: bindR_eq_ok)
  from apply_op_partial [OF Cons.prems(1) 1] obtain t1 where "INV s1 t1" ..
  from Cons.IH [OF this 2] show ?case .
qed

text \<open>
  A measurement whose confidence is below the threshold, or which supplies the polarity
  \<open>'-'\<close>, takes the \<open>if\<close> branch of \<open>mark_measurement\<close> whatever the entry holds.
\<close>

fun qualifies :: "op \<Rightarrow> bool" where
  "qualifies (Mark k c p) = (f32_less c PRUNE_THRESHOLD \<or> p = POLARITY_NEG)"
| "qualifies x = True"

lemma run_total:
  assumes "INV s t" and "\<And>j. streak s j \<le> B" and "0 \<le> B" and "B + int (length ops) \<le> INT_MAX"
    and "distinct (insert_keys ops)"
    and "set (insert_keys ops) \<inter> kof (heap s) ` set (addrs t) = {}"
    and "list_all qualifies ops"
  shows "\<exists>s' t'. run ops s = ok s' \<and> INV s' t'"
  using assms
proof (induction ops arbitrary: s t B)
  case Nil
  then show ?case by auto
next
  case (Cons x xs)
  have B1: "0 \<le> B + 1" "(B + 1) + int (length xs) \<le> INT_MAX" "B < INT_MAX"
    using Cons.prems(3,4) by auto
  have step: "\<exists>s1 t1. apply_op x s = ok s1 \<and> INV s1 t1 \<and> (\<forall>j. streak s1 j \<le> B + 1)
     \<and> distinct (insert_keys xs) \<and> set (insert_keys xs) \<inter> kof (heap s1) ` set (addrs t1) = {}"
  proof (cases x)
    case (Insert k v c p)
    from Cons.prems(5,6) have nk: "k \<notin> kof (heap s) ` set (addrs t)" and d: "distinct (insert_keys xs)"
      and nx: "k \<notin> set (insert_keys xs)" and dj: "set (insert_keys xs) \<inter> kof (heap s) ` set (addrs t) = {}"
      by (auto simp: Insert)
    from rb_insert_keys [OF Cons.prems(1) nk, of v c p] obtain s1 t1 where
      1: "rb_insert k v c p s = ok s1" "INV s1 t1"
      "kof (heap s1) ` set (addrs t1) = insert k (kof (heap s) ` set (addrs t))" "streak s1 = streak s"
      by blast
    have sb: "streak s1 j \<le> B + 1" for j
      using Cons.prems(2) [of j] by (simp add: 1(4))
    have "set (insert_keys xs) \<inter> kof (heap s1) ` set (addrs t1) = {}"
      unfolding 1(3) using nx dj by auto
    with 1(1,2) d sb show ?thesis
      unfolding Insert apply_op.simps by blast
  next
    case (Find k)
    from INV_find [OF Cons.prems(1), of k] obtain r where "find' k s = ok r" by blast
    moreover have "streak s j \<le> B + 1" for j
      using Cons.prems(2) [of j] by simp
    moreover from Cons.prems(5,6) have "distinct (insert_keys xs)"
      "set (insert_keys xs) \<inter> kof (heap s) ` set (addrs t) = {}"
      by (auto simp: Find)
    ultimately show ?thesis
      using Cons.prems(1) by (auto simp: Find)
  next
    case (Mark k c p)
    from Cons.prems(2) [of "unat (k AND 0xFF)"] B1(3) have "streak s (unat (k AND 0xFF)) \<noteq> INT_MAX"
      by simp
    moreover from Cons.prems(7) have "f32_less c PRUNE_THRESHOLD \<or> p = POLARITY_NEG"
      by (simp add: Mark)
    ultimately obtain s1 where
      1: "mark_measurement k c p s = ok s1" and 2: "mark_rel s s1 t"
      using mark_INV [OF Cons.prems(1), where k = k and c = c and p = p] by blast
    from 2 have inv1: "INV s1 t" and kk: "\<And>z. kof (heap s1) z = kof (heap s) z"
      and ss: "\<And>j. streak s1 j = streak s j \<or> streak s1 j = streak s j + 1"
      by (auto simp: mark_rel_def)
    have "streak s1 j \<le> B + 1" for j
      using ss [of j] Cons.prems(2) [of j] Cons.prems(3) by auto
    moreover from Cons.prems(5,6) have "distinct (insert_keys xs)"
      "set (insert_keys xs) \<inter> kof (heap s1) ` set (addrs t) = {}"
      by (auto simp: Mark kk)
    ultimately show ?thesis
      using 1 inv1 by (auto simp: Mark)
  qed
  then obtain s1 t1 where s1: "apply_op x s = ok s1" "INV s1 t1" "\<And>j. streak s1 j \<le> B + 1"
    "distinct (insert_keys xs)" "set (insert_keys xs) \<inter> kof (heap s1) ` set (addrs t1) = {}"
    by blast
  from Cons.prems(7) have "list_all qualifies xs" by simp
  from Cons.IH [OF s1(2,3) B1(1,2) s1(4,5) this] obtain s' t' where "run xs s1 = ok s'" "INV s' t'"
    by blast
  with s1(1) show ?case by auto
qed

lemma run_init_total:
  assumes "distinct (insert_keys ops)" "length ops < 2 ^ 31" "list_all qualifies ops"
  shows "\<exists>s' t'. run ops init_state = ok s' \<and> INV s' t'"
proof (rule run_total [OF INV_init, where B = 0])
  show "streak init_state j \<le> 0" for j by (simp add: init_state_def)
  show "0 + int (length ops) \<le> INT_MAX" using assms(2) by (simp add: INT_MAX_def)
  show "distinct (insert_keys ops)" by (rule assms(1))
  show "list_all qualifies ops" by (rule assms(3))
qed simp_all

section \<open>The encoder\<close>

declare rift_encode_loop.simps [simp del]

lemma length_spec_encode: "length (spec_encode pol xs) = (length xs + 1) div 2"
  by (induction pol xs rule: spec_encode.induct) simp_all

lemma word32_of_nat_neq:
  assumes "x < y" "y - x < 2 ^ 32"
  shows "(word_of_nat x :: 32 word) \<noteq> word_of_nat y"
proof
  assume "(word_of_nat x :: 32 word) = word_of_nat y"
  then have "x mod 2 ^ 32 = y mod 2 ^ 32"
    by (simp add: word_of_nat_eq_iff take_bit_eq_mod)
  then have "(2 ^ 32 :: nat) dvd y - x"
    using assms(1) by (metis mod_eq_dvd_iff_nat less_imp_le_nat)
  with assms show False
    by (auto dest: dvd_imp_le)
qed

lemma encode_loop_done:
  "\<not> i < in_len \<Longrightarrow> rift_encode_loop inp in_len out off pol i out_len s = ok (out_len, out, s)"
  by (subst rift_encode_loop.simps) simp

lemma encode_loop_step:
  assumes "i < length inp" "off + out_len < length out"
  shows "rift_encode_loop inp (length inp) out off pol i out_len s =
     bindR (rb_insert (word_of_nat (out_len + 1)) (hd (spec_encode pol (drop i inp))) (Finite 1)
              (if pol then 0x2B else 0x2D) s) (\<lambda>s1.
       rift_encode_loop inp (length inp)
         (out[off + out_len := hd (spec_encode pol (drop i inp))]) off pol (i + 2) (out_len + 1) s1)"
proof -
  from assms(1) have d: "drop i inp = inp ! i # drop (Suc i) inp"
    by (simp add: Cons_nth_drop_Suc)
  have hd: "hd (spec_encode pol (drop i inp)) =
      (if pol then inp ! i else conjugate (inp ! i))
        XOR (if pol then conjugate (if i + 1 < length inp then inp ! (i + 1) else 0) else
             (if i + 1 < length inp then inp ! (i + 1) else 0))"
  proof (cases "i + 1 < length inp")
    case True
    then have "drop (Suc i) inp = inp ! (Suc i) # drop (Suc (Suc i)) inp"
      by (simp add: Cons_nth_drop_Suc)
    with d True show ?thesis by simp
  next
    case False
    then have "drop (Suc i) inp = []" by simp
    with d False show ?thesis by simp
  qed
  show ?thesis
    unfolding hd
    by (subst rift_encode_loop.simps) (simp add: assms read_in_def write_out_def Let_def)
qed

lemma spec_encode_drop:
  assumes "i < length inp"
  shows "spec_encode pol (drop i inp) =
     hd (spec_encode pol (drop i inp)) # spec_encode pol (drop (i + 2) inp)"
proof -
  from assms have d: "drop i inp = inp ! i # drop (Suc i) inp"
    by (simp add: Cons_nth_drop_Suc)
  show ?thesis
  proof (cases "i + 1 < length inp")
    case True
    then have "drop (Suc i) inp = inp ! (Suc i) # drop (Suc (Suc i)) inp"
      by (simp add: Cons_nth_drop_Suc)
    with d show ?thesis by simp
  next
    case False
    then have "drop (Suc i) inp = []" "drop (Suc (Suc i)) inp = []" by simp_all
    with d show ?thesis by simp
  qed
qed

definition enc_post ::
  "state \<Rightarrow> atree \<Rightarrow> state \<Rightarrow> atree \<Rightarrow> nat \<Rightarrow> 8 word list \<Rightarrow> 8 word \<Rightarrow> bool" where
  "enc_post s t s' t' out_len bs tag = (INV s' t' \<and> set (addrs t) \<subseteq> set (addrs t')
     \<and> (\<forall>z. z \<in> set (addrs t) \<longrightarrow> pl (heap s') z = pl (heap s) z)
     \<and> streak s' = streak s
     \<and> kof (heap s') ` set (addrs t') =
         kof (heap s) ` set (addrs t) \<union> word_of_nat ` {out_len<..out_len + length bs}
     \<and> (\<forall>q. q < length bs \<longrightarrow> (\<exists>a col. a \<in> set (addrs t')
           \<and> pl (heap s') a = Some (word_of_nat (out_len + q + 1), bs ! q, tag, Finite 1, col))))"

lemma enc_post_Nil: "INV s t \<Longrightarrow> enc_post s t s t out_len [] tag"
  by (simp add: enc_post_def)

lemma enc_post_Cons:
  assumes inv: "INV s t"
    and ins: "rb_insert (word_of_nat (out_len + 1)) b (Finite 1) tag s = ok s1" "INV s1 t1"
      "set (addrs t1) = insert (next_addr s) (set (addrs t))" "streak s1 = streak s"
      "\<And>z. pl (heap s1) z = (if z = next_addr s
          then Some (word_of_nat (out_len + 1), b, tag, Finite 1, if rb_root s \<noteq> None then 1 else 0)
          else pl (heap s) z)"
    and rest: "enc_post s1 t1 s' t' (out_len + 1) bs tag"
  shows "enc_post s t s' t' out_len (b # bs) tag"
proof -
  let ?a = "next_addr s"
  from INV_fresh [OF inv] have na: "?a \<notin> set (addrs t)" .
  from rest have inv': "INV s' t'" and sub: "set (addrs t1) \<subseteq> set (addrs t')"
    and fr: "\<And>z. z \<in> set (addrs t1) \<Longrightarrow> pl (heap s') z = pl (heap s1) z"
    and st: "streak s' = streak s1"
    and ks: "kof (heap s') ` set (addrs t') =
         kof (heap s1) ` set (addrs t1) \<union> word_of_nat ` {out_len + 1<..out_len + 1 + length bs}"
    and en: "\<And>q. q < length bs \<Longrightarrow> \<exists>a col. a \<in> set (addrs t')
           \<and> pl (heap s') a = Some (word_of_nat (out_len + 1 + q + 1), bs ! q, tag, Finite 1, col)"
    unfolding enc_post_def by blast+
  have 1: "set (addrs t) \<subseteq> set (addrs t')"
    using sub ins(3) by auto
  have 2: "pl (heap s') z = pl (heap s) z" if "z \<in> set (addrs t)" for z
  proof -
    from that na have "z \<noteq> ?a" by auto
    moreover from that ins(3) have "z \<in> set (addrs t1)" by simp
    ultimately show ?thesis by (simp add: fr ins(5))
  qed
  have ka: "kof (heap s1) ?a = word_of_nat (out_len + 1)"
    by (simp add: kof_of_pl ins(5))
  have ko: "kof (heap s1) z = kof (heap s) z" if "z \<in> set (addrs t)" for z
  proof -
    from that na have "z \<noteq> ?a" by auto
    then show ?thesis by (simp add: kof_of_pl ins(5))
  qed
  have "kof (heap s1) ` set (addrs t) = kof (heap s) ` set (addrs t)"
    by (intro image_cong) (simp_all add: ko)
  then have k1: "kof (heap s1) ` set (addrs t1) = insert (word_of_nat (out_len + 1)) (kof (heap s) ` set (addrs t))"
    by (simp add: ins(3) ka)
  have iv: "{out_len<..out_len + length (b # bs)} = insert (out_len + 1) {out_len + 1<..out_len + 1 + length bs}"
    by auto
  have 3: "kof (heap s') ` set (addrs t') =
         kof (heap s) ` set (addrs t) \<union> word_of_nat ` {out_len<..out_len + length (b # bs)}"
    unfolding ks k1 iv by auto
  have 4: "\<exists>a col. a \<in> set (addrs t')
           \<and> pl (heap s') a = Some (word_of_nat (out_len + q + 1), (b # bs) ! q, tag, Finite 1, col)"
    if "q < length (b # bs)" for q
  proof (cases q)
    case 0
    have "?a \<in> set (addrs t1)" by (simp add: ins(3))
    then have "?a \<in> set (addrs t')" "pl (heap s') ?a = pl (heap s1) ?a"
      using sub fr by auto
    then show ?thesis
      unfolding 0 by (auto simp: ins(5))
  next
    case (Suc q')
    with that have "q' < length bs" by simp
    from en [OF this] show ?thesis by (simp add: Suc)
  qed
  show ?thesis
    unfolding enc_post_def using inv' 1 2 3 4 st ins(4) by simp
qed

lemma list_splice_step:
  assumes "n < length out"
  shows "take (Suc n) (out[n := x]) @ bs @ drop (Suc n + length bs) (out[n := x])
     = take n out @ (x # bs) @ drop (n + length (x # bs)) out"
proof -
  have "take (Suc n) (out[n := x]) = take n out @ [x]"
    using assms by (simp add: take_Suc_conv_app_nth)
  moreover have "drop (Suc n + length bs) (out[n := x]) = drop (Suc n + length bs) out"
    by simp
  ultimately show ?thesis by simp
qed

lemma encode_loop_INV:
  assumes "INV s t"
    and "off + out_len + length (spec_encode pol (drop i inp)) \<le> length out"
    and "length (spec_encode pol (drop i inp)) \<le> 2 ^ 32"
    and "\<And>q. out_len < q \<Longrightarrow> q \<le> out_len + length (spec_encode pol (drop i inp))
           \<Longrightarrow> word_of_nat q \<notin> kof (heap s) ` set (addrs t)"
  shows "\<exists>s' t'. rift_encode_loop inp (length inp) out off pol i out_len s =
       ok (out_len + length (spec_encode pol (drop i inp)),
           take (off + out_len) out @ spec_encode pol (drop i inp)
             @ drop (off + out_len + length (spec_encode pol (drop i inp))) out, s')
     \<and> enc_post s t s' t' out_len (spec_encode pol (drop i inp)) (if pol then 0x2B else 0x2D)"
  using assms
proof (induction "length inp - i" arbitrary: i out out_len s t rule: less_induct)
  case less
  let ?tag = "if pol then 0x2B else 0x2D :: 8 word"
  show ?case
  proof (cases "i < length inp")
    case False
    then have "drop i inp = []" by simp
    moreover have "enc_post s t s t out_len [] ?tag"
      using less.prems(1) by (rule enc_post_Nil)
    ultimately show ?thesis
      using False by (auto simp: encode_loop_done)
  next
    case True
    define b where "b = hd (spec_encode pol (drop i inp))"
    define bs where "bs = spec_encode pol (drop (i + 2) inp)"
    have se: "spec_encode pol (drop i inp) = b # bs"
      unfolding b_def bs_def using True by (rule spec_encode_drop)
    note prems = less.prems [unfolded se]
    from prems(2) have lt: "off + out_len < length out" by simp
    let ?k = "word_of_nat (out_len + 1) :: 32 word"
    have nk: "?k \<notin> kof (heap s) ` set (addrs t)"
      by (rule prems(4)) simp_all
    from rb_insert_INV [OF less.prems(1) nk, of b "Finite 1" ?tag] obtain s1 t1 where
      ins: "rb_insert ?k b (Finite 1) ?tag s = ok s1" "INV s1 t1"
        "set (addrs t1) = insert (next_addr s) (set (addrs t))" "streak s1 = streak s"
        "\<And>z. pl (heap s1) z = (if z = next_addr s
          then Some (?k, b, ?tag, Finite 1, if rb_root s \<noteq> None then 1 else 0)
          else pl (heap s) z)"
      by blast
    define out1 where "out1 = out[off + out_len := b]"
    have ka: "kof (heap s1) (next_addr s) = ?k"
      by (simp add: kof_of_pl ins(5))
    have ko: "kof (heap s1) z = kof (heap s) z" if "z \<in> set (addrs t)" for z
    proof -
      from that INV_fresh [OF less.prems(1)] have "z \<noteq> next_addr s" by auto
      then show ?thesis by (simp add: kof_of_pl ins(5))
    qed
    have "kof (heap s1) ` set (addrs t) = kof (heap s) ` set (addrs t)"
      by (intro image_cong) (simp_all add: ko)
    then have k1: "kof (heap s1) ` set (addrs t1) = insert ?k (kof (heap s) ` set (addrs t))"
      by (simp add: ins(3) ka)
    have "\<exists>s' t'. rift_encode_loop inp (length inp) out1 off pol (i + 2) (out_len + 1) s1 =
       ok (out_len + 1 + length (spec_encode pol (drop (i + 2) inp)),
           take (off + (out_len + 1)) out1 @ spec_encode pol (drop (i + 2) inp)
             @ drop (off + (out_len + 1) + length (spec_encode pol (drop (i + 2) inp))) out1, s')
       \<and> enc_post s1 t1 s' t' (out_len + 1) (spec_encode pol (drop (i + 2) inp)) ?tag"
    proof (rule less.hyps [OF _ ins(2)])
      show "length inp - (i + 2) < length inp - i" using True by simp
      show "off + (out_len + 1) + length (spec_encode pol (drop (i + 2) inp)) \<le> length out1"
        using prems(2) by (simp add: out1_def bs_def)
      show "length (spec_encode pol (drop (i + 2) inp)) \<le> 2 ^ 32"
        using prems(3) by (simp add: bs_def)
      fix q assume q: "out_len + 1 < q" "q \<le> out_len + 1 + length (spec_encode pol (drop (i + 2) inp))"
      from q prems(3) have "q - (out_len + 1) < 2 ^ 32"
        by (simp add: bs_def)
      from word32_of_nat_neq [OF q(1) this] have "(word_of_nat q :: 32 word) \<noteq> ?k" by simp
      moreover have "word_of_nat q \<notin> kof (heap s) ` set (addrs t)"
        by (rule prems(4)) (use q in \<open>simp_all add: bs_def\<close>)
      ultimately show "word_of_nat q \<notin> kof (heap s1) ` set (addrs t1)"
        unfolding k1 by simp
    qed
    then obtain s' t' where
      rec: "rift_encode_loop inp (length inp) out1 off pol (i + 2) (out_len + 1) s1 =
        ok (out_len + 1 + length bs, take (off + (out_len + 1)) out1 @ bs
             @ drop (off + (out_len + 1) + length bs) out1, s')"
      and post: "enc_post s1 t1 s' t' (out_len + 1) bs ?tag"
      unfolding bs_def [symmetric] by blast
    have sp: "take (off + (out_len + 1)) out1 @ bs @ drop (off + (out_len + 1) + length bs) out1
        = take (off + out_len) out @ (b # bs) @ drop (off + out_len + length (b # bs)) out"
      using list_splice_step [OF lt, of b bs] by (simp add: out1_def)
    have ex: "rift_encode_loop inp (length inp) out off pol i out_len s =
        ok (out_len + length (b # bs), take (off + out_len) out @ (b # bs)
             @ drop (off + out_len + length (b # bs)) out, s')"
      unfolding encode_loop_step [OF True lt] b_def [symmetric] out1_def [symmetric] ins(1)
        bindR_ok rec sp by simp
    from enc_post_Cons [OF less.prems(1) ins post] ex show ?thesis
      unfolding se by blast
  qed
qed

lemma entry_lookup:
  assumes "INV s t" "a \<in> set (addrs t)" "pl (heap s) a = Some (k, v, p, c, col)"
  shows "lookup k s = ok (Some (v, c, p))"
proof -
  from assms(3) obtain n where n: "heap s a = Some n" "key n = k" "val n = v" "polarity n = p"
    "confidence n = c"
    by (auto simp: pl_def)
  then have "kof (heap s) a = k" by (simp add: kof_def)
  with INV_find_found [OF assms(1,2)] have "find' k s = ok (Some a)" by simp
  then show ?thesis
    by (simp add: lookup_def n)
qed

lemma absent_lookup:
  assumes "INV s t" "k \<notin> kof (heap s) ` set (addrs t)"
  shows "lookup k s = ok None"
proof -
  from INV_find [OF assms(1), of k] obtain r where r: "find' k s = ok r"
    "case r of None \<Rightarrow> True | Some a \<Rightarrow> a \<in> set (addrs t)" by blast
  have "r = None"
  proof (cases r)
    case (Some a)
    from find'_Some [OF r(1) [unfolded Some]] have "kof (heap s) a = k" by (auto simp: kof_def)
    with r(2) Some assms(2) show ?thesis by auto
  qed simp
  with r show ?thesis by (simp add: lookup_def)
qed

lemma sorted_word_upt:
  assumes "m < 2 ^ 32"
  shows "sorted_wrt (<) (map (word_of_nat :: nat \<Rightarrow> 32 word) [1..<Suc m])"
proof -
  have lt: "(word_of_nat x :: 32 word) < word_of_nat y" if "x < y" "y \<le> m" for x y
  proof -
    from that assms have "x < 2 ^ 32" "y < 2 ^ 32" by simp_all
    then have "unat (word_of_nat x :: 32 word) = x" "unat (word_of_nat y :: 32 word) = y"
      by (simp_all add: unat_of_nat)
    with that show ?thesis by (simp add: word_less_nat_alt)
  qed
  have "sorted_wrt (\<lambda>x y. (word_of_nat x :: 32 word) < word_of_nat y) [1..<Suc m]"
  proof (rule sorted_wrt_mono_rel [OF _ sorted_wrt_upt])
    fix x y :: nat assume "y \<in> set [1..<Suc m]" "x < y"
    then show "(word_of_nat x :: 32 word) < word_of_nat y"
      by (intro lt) auto
  qed
  then show ?thesis
    by (simp only: sorted_wrt_map)
qed

lemma keys_of_positions:
  fixes ks :: "32 word list"
  assumes "sorted_wrt (<) ks" "set ks = word_of_nat ` {0<..m}" "m < 2 ^ 32"
  shows "ks = map word_of_nat [1..<Suc m]"
proof (rule sorted_distinct_set_unique)
  from assms(1) show "sorted ks" "distinct ks" by (simp_all add: strict_sorted_iff)
  from sorted_word_upt [OF assms(3)]
  show "sorted (map (word_of_nat :: nat \<Rightarrow> 32 word) [1..<Suc m])"
    "distinct (map (word_of_nat :: nat \<Rightarrow> 32 word) [1..<Suc m])"
    by (simp_all add: strict_sorted_iff)
  have "{0<..m} = set [1..<Suc m]" by auto
  then show "set ks = set (map word_of_nat [1..<Suc m])"
    using assms(2) by simp
qed

lemma encode_init:
  assumes "(length inp + 1) div 2 \<le> 2 ^ 32" "off + (length inp + 1) div 2 \<le> length out"
  shows "\<exists>s' t'. rift_encode inp (length inp) out off pol init_state =
       ok ((length inp + 1) div 2,
           take off out @ spec_encode pol inp @ drop (off + (length inp + 1) div 2) out, s')
     \<and> enc_post init_state Leaf s' t' 0 (spec_encode pol inp) (if pol then 0x2B else 0x2D)"
proof -
  have "\<exists>s' t'. rift_encode_loop inp (length inp) out off pol 0 0 init_state =
       ok (0 + length (spec_encode pol (drop 0 inp)),
           take (off + 0) out @ spec_encode pol (drop 0 inp)
             @ drop (off + 0 + length (spec_encode pol (drop 0 inp))) out, s')
     \<and> enc_post init_state Leaf s' t' 0 (spec_encode pol (drop 0 inp)) (if pol then 0x2B else 0x2D)"
    by (rule encode_loop_INV [OF INV_init]) (use assms in \<open>simp_all add: length_spec_encode\<close>)
  then show ?thesis
    by (simp add: rift_encode_def length_spec_encode)
qed

lemma encode_init_index:
  assumes "(length inp + 1) div 2 < 2 ^ 32" "off + (length inp + 1) div 2 \<le> length out"
  shows "\<exists>out' s'. rift_encode inp (length inp) out off pol init_state =
       ok ((length inp + 1) div 2, out', s')
     \<and> out' = take off out @ spec_encode pol inp @ drop (off + (length inp + 1) div 2) out
     \<and> subtree_keys (rb_root s') s' = Some (map word_of_nat [1..<Suc ((length inp + 1) div 2)])
     \<and> bst_ordered (rb_root s') s' = Some True
     \<and> (\<forall>q. 1 \<le> q \<and> q \<le> (length inp + 1) div 2 \<longrightarrow>
          lookup (word_of_nat q) s' = ok (Some (spec_encode pol inp ! (q - 1), Finite 1,
            if pol then 0x2B else 0x2D)))
     \<and> (\<forall>k. k \<notin> word_of_nat ` {0<..(length inp + 1) div 2} \<longrightarrow> lookup k s' = ok None)"
proof -
  let ?m = "(length inp + 1) div 2" and ?bs = "spec_encode pol inp"
  let ?tag = "if pol then 0x2B else 0x2D :: 8 word"
  from assms(1) have le: "?m \<le> 2 ^ 32" by simp
  from encode_init [OF le assms(2), of pol] obtain s' t' where
    ex: "rift_encode inp (length inp) out off pol init_state =
       ok (?m, take off out @ ?bs @ drop (off + ?m) out, s')"
    and post: "enc_post init_state Leaf s' t' 0 ?bs ?tag"
    by blast
  from post have inv: "INV s' t'"
    and ks: "kof (heap s') ` set (addrs t') = word_of_nat ` {0<..?m}"
    and en: "\<And>q. q < ?m \<Longrightarrow> \<exists>a col. a \<in> set (addrs t')
           \<and> pl (heap s') a = Some (word_of_nat (q + 1), ?bs ! q, ?tag, Finite 1, col)"
    unfolding enc_post_def by (simp_all add: length_spec_encode)
  from inv have so: "sorted_wrt (<) (map (kof (heap s')) (addrs t'))"
    by (simp add: INV_def)
  have "map (kof (heap s')) (addrs t') = map word_of_nat [1..<Suc ?m]"
    by (rule keys_of_positions [OF so _ assms(1)]) (simp add: ks)
  with INV_subtree_keys [OF inv]
  have 1: "subtree_keys (rb_root s') s' = Some (map word_of_nat [1..<Suc ?m])" by simp
  have 2: "bst_ordered (rb_root s') s' = Some True"
    by (rule INV_bst_ordered [OF inv])
  have 3: "lookup (word_of_nat q) s' = ok (Some (?bs ! (q - 1), Finite 1, ?tag))"
    if "1 \<le> q" "q \<le> ?m" for q
  proof -
    from that have "q - 1 < ?m" by simp
    from en [OF this] that(1) obtain a col where "a \<in> set (addrs t')"
      "pl (heap s') a = Some (word_of_nat q, ?bs ! (q - 1), ?tag, Finite 1, col)"
      by auto
    with inv show ?thesis by (rule entry_lookup)
  qed
  have 4: "lookup k s' = ok None" if "k \<notin> word_of_nat ` {0<..?m}" for k
    using inv that unfolding ks [symmetric] by (rule absent_lookup)
  from ex 1 2 3 4 show ?thesis by blast
qed

subsection \<open>Any index: what a returning call has written, and the counters\<close>




lemma encode_loop_overflow:
  assumes "i < length inp" "\<not> off + out_len < length out"
  shows "rift_encode_loop inp (length inp) out off pol i out_len s = fail BufferOverflow"
  by (subst rift_encode_loop.simps) (simp add: assms read_in_def write_out_def Let_def)

lemma encode_loop_partial:
  assumes "rift_encode_loop inp (length inp) out off pol i out_len s = ok (m, out', s')"
  shows "m = out_len + length (spec_encode pol (drop i inp))
     \<and> out' = take (off + out_len) out @ spec_encode pol (drop i inp)
         @ drop (off + out_len + length (spec_encode pol (drop i inp))) out"
  using assms
proof (induction "length inp - i" arbitrary: i out out_len s rule: less_induct)
  case less
  show ?case
  proof (cases "i < length inp")
    case False
    then have "drop i inp = []" by simp
    with False less.prems show ?thesis
      by (simp add: encode_loop_done)
  next
    case True
    define b where "b = hd (spec_encode pol (drop i inp))"
    define bs where "bs = spec_encode pol (drop (i + 2) inp)"
    have se: "spec_encode pol (drop i inp) = b # bs"
      unfolding b_def bs_def using True by (rule spec_encode_drop)
    have lt: "off + out_len < length out"
    proof (rule ccontr)
      assume "\<not> off + out_len < length out"
      from encode_loop_overflow [OF True this] less.prems show False by simp
    qed
    define out1 where "out1 = out[off + out_len := b]"
    from less.prems [unfolded encode_loop_step [OF True lt] b_def [symmetric] out1_def [symmetric]]
    obtain s1 where rec: "rift_encode_loop inp (length inp) out1 off pol (i + 2) (out_len + 1) s1
        = ok (m, out', s')"
      by (auto simp: bindR_eq_ok)
    have "length inp - (i + 2) < length inp - i" using True by simp
    from less.hyps [OF this rec]
    have m: "m = out_len + 1 + length bs"
      and o: "out' = take (off + (out_len + 1)) out1 @ bs @ drop (off + (out_len + 1) + length bs) out1"
      by (simp_all add: bs_def)
    have sp: "take (off + (out_len + 1)) out1 @ bs @ drop (off + (out_len + 1) + length bs) out1
        = take (off + out_len) out @ (b # bs) @ drop (off + out_len + length (b # bs)) out"
      using list_splice_step [OF lt, of b bs] by (simp add: out1_def)
    show ?thesis
      unfolding se using m o sp by simp
  qed
qed

lemma encode_partial:
  assumes "rift_encode inp (length inp) out off pol s = ok (m, out', s')"
  shows "m = (length inp + 1) div 2"
    "out' = take off out @ spec_encode pol inp @ drop (off + (length inp + 1) div 2) out"
  using encode_loop_partial [OF assms [unfolded rift_encode_def]]
  by (simp_all add: length_spec_encode)

lemma apply_op_streak:
  assumes "INV s t" "apply_op x s = ok s'"
  shows "streak s' j = streak s j \<or> streak s' j = streak s j + 1"
proof (cases x)
  case (Insert k v c p)
  show ?thesis
  proof (cases "k \<in> kof (heap s) ` set (addrs t)")
    case True
    from rb_insert_dup [OF assms(1) True] assms(2) show ?thesis by (simp add: Insert)
  next
    case False
    from rb_insert_keys [OF assms(1) False, of v c p] assms(2) show ?thesis
      by (auto simp: Insert)
  qed
next
  case (Find k)
  with assms show ?thesis by (auto simp: bindR_eq_ok)
next
  case (Mark k c p)
  from mark_INV [OF assms(1), where k = k and c = c and p = p] assms(2) show ?thesis
    by (auto simp: Mark mark_rel_def)
qed

lemma run_streak:
  assumes "INV s t" "run ops s = ok s'" "\<And>j. 0 \<le> streak s j \<and> streak s j \<le> B"
  shows "0 \<le> streak s' j \<and> streak s' j \<le> B + int (length ops)"
  using assms
proof (induction ops arbitrary: s t B)
  case Nil
  then show ?case by simp
next
  case (Cons x xs)
  from Cons.prems(2) obtain s1 where 1: "apply_op x s = ok s1" and 2: "run xs s1 = ok s'"
    by (auto simp: bindR_eq_ok)
  from apply_op_partial [OF Cons.prems(1) 1] obtain t1 where inv1: "INV s1 t1" ..
  have b1: "0 \<le> streak s1 i \<and> streak s1 i \<le> B + 1" for i
    using apply_op_streak [OF Cons.prems(1) 1, of i] Cons.prems(3) [of i] by auto
  from Cons.IH [OF inv1 2 b1] show ?case by simp
qed

lemma run_init_streak:
  assumes "run ops init_state = ok s"
  shows "0 \<le> streak s j \<and> streak s j \<le> int (length ops)"
  using run_streak [OF INV_init assms, of 0 j] by (simp add: init_state_def)

lemma insert_keys_Cons: "insert_keys (x # xs) = insert_keys [x] @ insert_keys xs"
  by (cases x) simp_all

lemma apply_op_keys:
  assumes "INV s t" "apply_op x s = ok s'"
  shows "\<exists>t'. INV s' t' \<and> kof (heap s') ` set (addrs t')
     = kof (heap s) ` set (addrs t) \<union> set (insert_keys [x])"
proof (cases x)
  case (Insert k v c p)
  show ?thesis
  proof (cases "k \<in> kof (heap s) ` set (addrs t)")
    case True
    from rb_insert_dup [OF assms(1) True] assms(2) show ?thesis by (simp add: Insert)
  next
    case False
    from rb_insert_keys [OF assms(1) False, of v c p] assms(2) show ?thesis
      by (auto simp: Insert)
  qed
next
  case (Find k)
  with assms show ?thesis by (auto simp: bindR_eq_ok)
next
  case (Mark k c p)
  from mark_INV [OF assms(1), where k = k and c = c and p = p] assms(2)
  have "mark_rel s s' t" by (auto simp: Mark)
  then have "INV s' t" "kof (heap s') ` set (addrs t) = kof (heap s) ` set (addrs t)"
    by (simp_all add: mark_rel_def)
  then show ?thesis by (auto simp: Mark)
qed

lemma run_keys:
  "INV s t \<Longrightarrow> run ops s = ok s' \<Longrightarrow>
   \<exists>t'. INV s' t' \<and> kof (heap s') ` set (addrs t')
     = kof (heap s) ` set (addrs t) \<union> set (insert_keys ops)"
proof (induction ops arbitrary: s t)
  case Nil
  then show ?case by auto
next
  case (Cons x xs)
  from Cons.prems(2) obtain s1 where 1: "apply_op x s = ok s1" and 2: "run xs s1 = ok s'"
    by (auto simp: bindR_eq_ok)
  from apply_op_keys [OF Cons.prems(1) 1] obtain t1 where t1: "INV s1 t1"
    "kof (heap s1) ` set (addrs t1) = kof (heap s) ` set (addrs t) \<union> set (insert_keys [x])"
    by blast
  from Cons.IH [OF t1(1) 2] obtain t' where "INV s' t'"
    "kof (heap s') ` set (addrs t') = kof (heap s1) ` set (addrs t1) \<union> set (insert_keys xs)"
    by blast
  then show ?case
    unfolding t1(2) insert_keys_Cons [of x xs] by (auto simp: Un_assoc)
qed

lemma run_init_ordered:
  assumes "run ops init_state = ok s"
  shows "bst_ordered (rb_root s) s = Some True"
    "\<exists>ks. subtree_keys (rb_root s) s = Some ks \<and> distinct ks \<and> set ks = set (insert_keys ops)"
proof -
  from run_keys [OF INV_init assms] obtain t where t: "INV s t"
    "kof (heap s) ` set (addrs t) = set (insert_keys ops)"
    by auto
  from t(1) show "bst_ordered (rb_root s) s = Some True" by (rule INV_bst_ordered)
  from t(1) have "sorted_wrt (<) (map (kof (heap s)) (addrs t))" by (simp add: INV_def)
  then have "distinct (map (kof (heap s)) (addrs t))" by (simp add: strict_sorted_iff)
  with INV_subtree_keys [OF t(1)] t(2)
  show "\<exists>ks. subtree_keys (rb_root s) s = Some ks \<and> distinct ks \<and> set ks = set (insert_keys ops)"
    by simp
qed


section \<open>The claims\<close>

text \<open>
  C1 (running position). The claim fails on the code: the output position \<open>out_len\<close> is a
  local of \<open>rift_encode\<close> that starts at 0 in every call, and nothing counts across calls.
  After a first call on the two bytes 41 42 the index holds the key 1. The call on the
  next chunk 43 44 of the same stream, writing behind the first output byte as
  \<open>rift_open\<close> does, asks for the key 1 again, takes the duplicate path of \<open>bst_insert\<close> and
  ends in the read of the freed node.
\<close>

theorem C1_position_restarts:
  "holds_after (rift_encode [0x41, 0x42] 2 [0, 0] 0 True init_state)
     (\<lambda>(m, out, s). m = 1 \<and> out = [0x0C, 0] \<and> subtree_keys (rb_root s) s = Some [1]
        \<and> fails_with (rift_encode [0x43, 0x44] 2 out m True s) Dangling)"
  by code_simp

text \<open>
  C1, amended. One call of \<open>rift_encode\<close> on the empty index, whose \<open>m < 2 ^ 32\<close> output bytes
  fit the buffer, returns; the keys of the index are then exactly the positions
  \<open>1, ..., m\<close> within that call, and the entry under the key \<open>q\<close> holds the \<open>q\<close>-th output
  byte of the call, the confidence 1.0 and the polarity of the call.
\<close>

theorem C1_positions_in_call:
  "(length inp + 1) div 2 < 2 ^ 32 \<and> off + (length inp + 1) div 2 \<le> length out
     \<longrightarrow> (\<exists>out' s'. rift_encode inp (length inp) out off polarity_A init_state
              = ok ((length inp + 1) div 2, out', s')
          \<and> subtree_keys (rb_root s') s' = Some (map word_of_nat [1..<Suc ((length inp + 1) div 2)])
          \<and> (\<forall>q. 1 \<le> q \<and> q \<le> (length inp + 1) div 2 \<longrightarrow>
                lookup (word_of_nat q) s' = ok (Some (out' ! (off + (q - 1)), Finite 1,
                  if polarity_A then POLARITY_POS else POLARITY_NEG))))"
proof
  let ?m = "(length inp + 1) div 2" and ?bs = "spec_encode polarity_A inp"
  assume "?m < 2 ^ 32 \<and> off + ?m \<le> length out"
  then have pre: "?m < 2 ^ 32" "off + ?m \<le> length out" by simp_all
  from encode_init_index [OF pre, of polarity_A] obtain out' s' where
    1: "rift_encode inp (length inp) out off polarity_A init_state = ok (?m, out', s')"
      "out' = take off out @ ?bs @ drop (off + ?m) out"
      "subtree_keys (rb_root s') s' = Some (map word_of_nat [1..<Suc ?m])"
      "\<And>q. 1 \<le> q \<and> q \<le> ?m \<Longrightarrow>
          lookup (word_of_nat q) s' = ok (Some (?bs ! (q - 1), Finite 1,
            if polarity_A then 0x2B else 0x2D))"
    by auto
  have nth: "out' ! (off + (q - 1)) = ?bs ! (q - 1)" if "1 \<le> q \<and> q \<le> ?m" for q
  proof -
    from pre(2) have "length (take off out) = off" by simp
    moreover from that have "q - 1 < length ?bs" by (auto simp: length_spec_encode)
    ultimately show ?thesis
      unfolding 1(2) by (simp add: nth_append)
  qed
  have "lookup (word_of_nat q) s' = ok (Some (out' ! (off + (q - 1)), Finite 1,
                  if polarity_A then POLARITY_POS else POLARITY_NEG))" if "1 \<le> q \<and> q \<le> ?m" for q
    using 1(4) [OF that] nth [OF that] by (simp add: POLARITY_POS_def POLARITY_NEG_def)
  with 1(1,3) show "\<exists>out' s'. rift_encode inp (length inp) out off polarity_A init_state
              = ok (?m, out', s')
          \<and> subtree_keys (rb_root s') s' = Some (map word_of_nat [1..<Suc ?m])
          \<and> (\<forall>q. 1 \<le> q \<and> q \<le> ?m \<longrightarrow>
                lookup (word_of_nat q) s' = ok (Some (out' ! (off + (q - 1)), Finite 1,
                  if polarity_A then POLARITY_POS else POLARITY_NEG)))"
    by blast
qed

theorem C1_positions_in_call_witness:
  "\<exists>out' s'. rift_encode [0x41, 0x42, 0x43] 3 [0, 0] 0 True init_state = ok (2, out', s')
     \<and> subtree_keys (rb_root s') s' = Some [1, 2]
     \<and> lookup 1 s' = ok (Some (out' ! 0, Finite 1, POLARITY_POS))
     \<and> lookup 2 s' = ok (Some (out' ! 1, Finite 1, POLARITY_POS))"
proof -
  have l: "length [0x41, 0x42, 0x43 :: 8 word] = 3" by simp
  have d: "(3 + 1) div 2 = (2 :: nat)" by simp
  note c1 = C1_positions_in_call [where inp = "[0x41, 0x42, 0x43]" and out = "[0, 0]" and off = 0
      and polarity_A = True, unfolded l d]
  have pre: "(2 :: nat) < 2 ^ 32 \<and> 0 + 2 \<le> length [0, 0 :: 8 word]" by simp
  from c1 [THEN mp, OF pre] obtain out' s' where
    r: "rift_encode [0x41, 0x42, 0x43] 3 [0, 0] 0 True init_state = ok (2, out', s')"
    and k: "subtree_keys (rb_root s') s' = Some (map word_of_nat [1..<Suc 2])"
    and q: "\<And>q. 1 \<le> q \<and> q \<le> 2 \<Longrightarrow> lookup (word_of_nat q) s'
        = ok (Some (out' ! (0 + (q - 1)), Finite 1, if True then POLARITY_POS else POLARITY_NEG))"
    by blast
  have "map word_of_nat [1..<Suc 2] = [1, 2 :: 32 word]"
    by (simp add: upt_rec)
  with k have k': "subtree_keys (rb_root s') s' = Some [1, 2]" by simp
  from q [of 1] q [of 2] have "lookup 1 s' = ok (Some (out' ! 0, Finite 1, POLARITY_POS))"
    "lookup 2 s' = ok (Some (out' ! 1, Finite 1, POLARITY_POS))"
    by simp_all
  with r k' show ?thesis by blast
qed

text \<open>
  C2 (balance invariant). \<open>rb_insert\<close> leaves the \<open>height\<close> field of a new leaf at the 0
  that \<open>calloc\<close> wrote and starts \<open>rebalance_up\<close> at the parent, so a new leaf counts as
  an absent child. After the inserts of the keys 1, 2, 3 into the empty index the tree is
  the chain 1 - 2 - 3: the children of the root have the heights 0 and 2, and the tree
  is not balanced (it is still ordered).
\<close>

theorem C2_chain_unbalanced:
  "holds_after (run [Insert 1 7 (Finite 1) 0x2B, Insert 2 7 (Finite 1) 0x2B,
        Insert 3 7 (Finite 1) 0x2B] init_state)
     (\<lambda>s. balanced (rb_root s) s = Some False
        \<and> bindR (rd (rb_root s) left s) (\<lambda>l. ok (tree_height l s)) = ok (Some 0)
        \<and> bindR (rd (rb_root s) right s) (\<lambda>r. ok (tree_height r s)) = ok (Some 2)
        \<and> subtree_keys (rb_root s) s = Some [1, 2, 3])"
  by code_simp

text \<open>
  C3 (ordering). In every state that a sequence of \<open>rb_insert\<close>, \<open>find\<close> and
  \<open>mark_measurement\<close> calls reaches from the empty index, every node has only smaller keys
  in its left subtree and only larger keys in its right subtree, and the keys of the tree
  are the keys that were inserted, each once. A sequence does reach a state when its
  insert keys are distinct, it has fewer than \<open>2 ^ 31\<close> calls and its measurements take
  the \<open>if\<close> branch.
\<close>

theorem C3_bst_ordering:
  "(run ops init_state = ok s \<longrightarrow> bst_ordered (rb_root s) s = Some True
        \<and> (\<exists>ks. subtree_keys (rb_root s) s = Some ks \<and> distinct ks
              \<and> set ks = set (insert_keys ops)))
   \<and> (distinct (insert_keys ops) \<and> length ops < 2 ^ 31 \<and> list_all qualifies ops
        \<longrightarrow> (\<exists>s'. run ops init_state = ok s'))"
  using run_init_ordered [of ops s] run_init_total [of ops] by blast

theorem C3_bst_ordering_witness:
  "\<exists>s ks. run [Insert 2 7 (Finite 1) 0x2B, Insert 1 8 (Finite 1) 0x2B, Insert 3 9 (Finite 1) 0x2D,
            Mark 2 (Finite (2 / 5)) 0, Find 9] init_state = ok s
       \<and> bst_ordered (rb_root s) s = Some True
       \<and> subtree_keys (rb_root s) s = Some ks \<and> set ks = {1, 2, 3}"
proof -
  let ?ops = "[Insert 2 7 (Finite 1) 0x2B, Insert 1 8 (Finite 1) 0x2B, Insert 3 9 (Finite 1) 0x2D,
            Mark 2 (Finite (2 / 5)) 0, Find 9]"
  have "distinct (insert_keys ?ops) \<and> length ?ops < 2 ^ 31 \<and> list_all qualifies ?ops"
    by (simp add: PRUNE_THRESHOLD_def)
  with C3_bst_ordering [of ?ops, THEN conjunct2] obtain s where r: "run ?ops init_state = ok s"
    by blast
  with C3_bst_ordering [of ?ops s, THEN conjunct1] obtain ks where
    "bst_ordered (rb_root s) s = Some True" "subtree_keys (rb_root s) s = Some ks"
    "set ks = set (insert_keys ?ops)"
    by blast
  moreover have "set (insert_keys ?ops) = {1, 2, 3}" by auto
  ultimately show ?thesis using r by blast
qed

text \<open>
  C4 (output capacity). \<open>rift_open\<close> tests \<open>total < out_cap\<close> only before it reads a
  chunk, and \<open>rift_encode\<close> then writes one byte for every pair of the chunk. With a file
  of four bytes and \<open>out_cap = 1\<close> it writes two bytes and returns 2 when the buffer has
  room for them, and writes past the end of a buffer of exactly \<open>out_cap\<close> bytes.
\<close>

theorem C4_exceeds_capacity:
  "holds_after (rift_open (\<lambda>p. if p = ''f'' then Some [0x41, 0x42, 0x43, 0x44] else None) ''f''
        [0, 0] 1 True init_state)
     (\<lambda>(total', out, s). total' = 2 \<and> out = [0x0C, 0x08])
   \<and> fails_with (rift_open (\<lambda>p. if p = ''f'' then Some [0x41, 0x42, 0x43, 0x44] else None) ''f''
        [0] 1 True init_state) BufferOverflow"
  by code_simp

text \<open>
  C5 (pruning). The claim fails on the code when the \<open>int\<close> counter of the bucket holds
  \<open>INT_MAX\<close>, which it does after \<open>2 ^ 31 - 1\<close> qualifying measurements of that bucket (the
  counter is only ever incremented): \<open>streak[key & 0xFF]++\<close> then overflows, and the entry
  is not pruned by any defined behaviour.
\<close>

theorem C5_counter_overflow:
  "holds_after (run [Insert 1 7 (Finite 1) 0x2B] (init_state\<lparr>streak := (\<lambda>_. INT_MAX)\<rparr>))
     (\<lambda>s. find' 1 s = ok (Some 0)
        \<and> fails_with (mark_measurement 1 (Finite (1 / 4)) 0 s) SignedOverflow)"
  by code_simp

text \<open>
  C5, amended. For an entry that \<open>find\<close> returns and whose bucket counter is in the range
  \<open>0 \<le> c < INT_MAX\<close>, a measurement whose confidence is below 0.5, or after which the
  polarity of the entry is \<open>'-'\<close>, returns at once with \<open>val = 0\<close> and \<open>confidence = 0.0\<close> in
  that entry, the polarity that was supplied (if one was), the counter of the bucket
  incremented, and nothing else changed. Every counter is in that range in a state
  reached from the empty index by fewer than \<open>2 ^ 31 - 1\<close> calls.
\<close>

theorem C5_prune:
  "(find' k s = ok (Some a) \<and> heap s a = Some n
      \<and> (f32_less conf PRUNE_THRESHOLD \<or> (if pol \<noteq> 0 then pol else polarity n) = POLARITY_NEG)
      \<and> 0 \<le> streak s (unat k mod 256) \<and> streak s (unat k mod 256) < INT_MAX
     \<longrightarrow> mark_measurement k conf pol s =
           ok (s\<lparr>heap := (heap s)(a \<mapsto> n\<lparr>val := 0, confidence := Finite 0,
                                       polarity := (if pol \<noteq> 0 then pol else polarity n)\<rparr>),
                 streak := (streak s)(unat k mod 256 := streak s (unat k mod 256) + 1)\<rparr>))
   \<and> (run ops init_state = ok s \<and> length ops < 2 ^ 31 - 1
     \<longrightarrow> 0 \<le> streak s j \<and> streak s j < INT_MAX)"
proof (intro conjI impI)
  assume h: "find' k s = ok (Some a) \<and> heap s a = Some n
      \<and> (f32_less conf PRUNE_THRESHOLD \<or> (if pol \<noteq> 0 then pol else polarity n) = POLARITY_NEG)
      \<and> 0 \<le> streak s (unat k mod 256) \<and> streak s (unat k mod 256) < INT_MAX"
  then show "mark_measurement k conf pol s =
           ok (s\<lparr>heap := (heap s)(a \<mapsto> n\<lparr>val := 0, confidence := Finite 0,
                                       polarity := (if pol \<noteq> 0 then pol else polarity n)\<rparr>),
                 streak := (streak s)(unat k mod 256 := streak s (unat k mod 256) + 1)\<rparr>)"
    by (auto simp: mark_measurement_def bucket_mod Let_def PRUNE_STREAK_def POLARITY_NEG_def
          split: if_splits intro!: state.equality RBNode.equality)
next
  assume r: "run ops init_state = ok s \<and> length ops < 2 ^ 31 - 1"
  with run_init_streak [of ops s j] show "0 \<le> streak s j" by simp
  from r run_init_streak [of ops s j] show "streak s j < INT_MAX"
    by (simp add: INT_MAX_def)
qed

theorem C5_prune_witness:
  "holds_after (run [Insert 1 7 (Finite 1) 0x2B] init_state)
     (\<lambda>s. find' 1 s = ok (Some 0) \<and> (\<exists>n. heap s 0 = Some n \<and> polarity n = 0x2B
        \<and> mark_measurement 1 (Finite (9 / 10)) 0x2D s =
           ok (s\<lparr>heap := (heap s)(0 \<mapsto> n\<lparr>val := 0, confidence := Finite 0, polarity := 0x2D\<rparr>),
                 streak := (streak s)(1 := streak s 1 + 1)\<rparr>)))"
proof -
  have "holds_after (run [Insert 1 7 (Finite 1) 0x2B] init_state)
     (\<lambda>s. find' 1 s = ok (Some 0) \<and> (case heap s 0 of None \<Rightarrow> False | Some n \<Rightarrow> polarity n = 0x2B))"
    by code_simp
  then obtain s n where r: "run [Insert 1 7 (Finite 1) 0x2B] init_state = ok s"
    and f: "find' 1 s = ok (Some 0)" and n: "heap s 0 = Some n" "polarity n = 0x2B"
    by (auto elim!: holds_afterE split: option.splits)
  note c5 = C5_prune [where k = 1 and s = s and a = 0 and n = n and conf = "Finite (9 / 10)"
      and pol = "0x2D" and ops = "[Insert 1 7 (Finite 1) 0x2B]" and j = "unat (1 :: 32 word) mod 256"]
  from c5 [THEN conjunct2] r have b: "0 \<le> streak s (unat (1 :: 32 word) mod 256)"
    "streak s (unat (1 :: 32 word) mod 256) < INT_MAX" by simp_all
  from c5 [THEN conjunct1] f n b
  have "mark_measurement 1 (Finite (9 / 10)) 0x2D s =
           ok (s\<lparr>heap := (heap s)(0 \<mapsto> n\<lparr>val := 0, confidence := Finite 0, polarity := 0x2D\<rparr>),
                 streak := (streak s)(1 := streak s 1 + 1)\<rparr>)"
    by (simp add: POLARITY_NEG_def)
  with r f n show ?thesis
    by (intro holds_afterI [OF r]) simp
qed

text \<open>
  C6 (duplicate insert). On an existing key \<open>bst_insert\<close> overwrites the payload of the
  node in place and frees the new node; \<open>rb_insert\<close> then reads \<open>n->parent\<close> of the node
  that was just freed. Inserting the key 1 twice ends in that access.
\<close>

theorem C6_duplicate_insert_dangling:
  "fails_with (run [Insert 1 7 (Finite 1) 0x2B, Insert 1 8 (Finite 1) 0x2B] init_state) Dangling"
  by code_simp

text \<open>
  C7 (recovery reset). The reset \<open>streak[key & 0xFF] = 0\<close> stands in the \<open>else\<close> branch,
  outside the block of the \<open>if\<close> branch that declares \<open>streak\<close>: no array of that name is in
  scope, and the statement resets nothing. After a qualifying measurement of the key 1
  its counter is 1, and the confident, non-negative measurement that follows has no
  defined result.
\<close>

theorem C7_reset_undeclared:
  "holds_after (run [Insert 1 7 (Finite 1) 0x2B, Mark 1 (Finite (2 / 5)) 0] init_state)
     (\<lambda>s. find' 1 s = ok (Some 0) \<and> streak s (unat (1 :: 32 word) mod 256) = 1
        \<and> fails_with (mark_measurement 1 (Finite (9 / 10)) 0x2B s) Undeclared)"
  by code_simp

text \<open>
  C8 (output length and padding). Whenever a call of \<open>rift_encode\<close> on \<open>n\<close> input bytes
  returns, in any state of the index, it returns \<open>(n + 1) div 2\<close> and has written exactly
  the bytes of \<open>spec_encode\<close>, the last pair of an odd input padded with \<open>0x00\<close>, at its
  output pointer and nothing else. On the empty index the call returns when the output
  fits the buffer and has at most \<open>2 ^ 32\<close> bytes. The two examples of the specification
  are evaluated on the code.
\<close>

theorem C8_encode_output:
  "(rift_encode inp (length inp) out off polarity_A s = ok (m, out', s')
      \<longrightarrow> m = (length inp + 1) div 2
        \<and> out' = take off out @ spec_encode polarity_A inp @ drop (off + (length inp + 1) div 2) out)
   \<and> ((length inp + 1) div 2 \<le> 2 ^ 32 \<and> off + (length inp + 1) div 2 \<le> length out
      \<longrightarrow> (\<exists>out1 s1. rift_encode inp (length inp) out off polarity_A init_state
             = ok ((length inp + 1) div 2, out1, s1)))
   \<and> length (spec_encode polarity_A inp) = (length inp + 1) div 2
   \<and> conjugate 0x41 = 0x4E
   \<and> holds_after (rift_encode [0x41] 1 [0x00] 0 False init_state)
        (\<lambda>(m, out, s). m = 1 \<and> out = [0x4E])
   \<and> holds_after (rift_encode [0x41, 0x42] 2 [0x00] 0 True init_state)
        (\<lambda>(m, out, s). m = 1 \<and> out = [0x0C])"
proof (intro conjI impI)
  assume "rift_encode inp (length inp) out off polarity_A s = ok (m, out', s')"
  from encode_partial [OF this]
  show "m = (length inp + 1) div 2"
    "out' = take off out @ spec_encode polarity_A inp @ drop (off + (length inp + 1) div 2) out"
    by simp_all
next
  assume "(length inp + 1) div 2 \<le> 2 ^ 32 \<and> off + (length inp + 1) div 2 \<le> length out"
  then have "(length inp + 1) div 2 \<le> 2 ^ 32" "off + (length inp + 1) div 2 \<le> length out"
    by simp_all
  from encode_init [OF this, of polarity_A]
  show "\<exists>out1 s1. rift_encode inp (length inp) out off polarity_A init_state
             = ok ((length inp + 1) div 2, out1, s1)"
    by blast
next
  show "length (spec_encode polarity_A inp) = (length inp + 1) div 2"
    by (rule length_spec_encode)
  show "conjugate 0x41 = 0x4E"
    by (simp add: conjugate_def)
  show "holds_after (rift_encode [0x41] 1 [0x00] 0 False init_state)
        (\<lambda>(m, out, s). m = 1 \<and> out = [0x4E])"
    by code_simp
  show "holds_after (rift_encode [0x41, 0x42] 2 [0x00] 0 True init_state)
        (\<lambda>(m, out, s). m = 1 \<and> out = [0x0C])"
    by code_simp
qed

theorem C8_encode_output_witness:
  "\<exists>out' s'. rift_encode [0x41, 0x42, 0x43] 3 [0, 0, 0] 1 True init_state = ok (2, out', s')
     \<and> out' = [0, 0x0C, 0x4C]"
proof -
  have l: "length [0x41, 0x42, 0x43 :: 8 word] = 3" by simp
  have d: "(3 + 1) div 2 = (2 :: nat)" by simp
  note c8 = C8_encode_output [where inp = "[0x41, 0x42, 0x43]" and out = "[0, 0, 0]" and off = 1
      and polarity_A = True, unfolded l d]
  have pre: "(2 :: nat) \<le> 2 ^ 32 \<and> 1 + 2 \<le> length [0, 0, 0 :: 8 word]" by simp
  from c8 [THEN conjunct2, THEN conjunct1, THEN mp, OF pre]
  obtain out1 s1 where r: "rift_encode [0x41, 0x42, 0x43] 3 [0, 0, 0] 1 True init_state = ok (2, out1, s1)"
    by blast
  from c8 [where s = init_state and m = 2 and out' = out1 and s' = s1, THEN conjunct1, THEN mp, OF r]
  have "out1 = [0, 0x0C, 0x4C]"
    by (simp add: conjugate_def)
  with r show ?thesis by blast
qed

text \<open>
  C9 (measurement of an absent key). When \<open>find\<close> returns \<open>NULL\<close> for the key,
  \<open>mark_measurement\<close> returns the state it was given: no node, no pointer and no counter
  is written.
\<close>

theorem C9_absent:
  assumes "find' k s = ok None"
  shows "mark_measurement k conf pol s = ok s"
  using assms by (simp add: mark_measurement_def)

theorem C9_absent_witness:
  "holds_after (run [Insert 1 7 (Finite 1) 0x2B] init_state)
     (\<lambda>s. find' 2 s = ok None \<and> mark_measurement 2 (Finite (2 / 5)) 0x2D s = ok s)"
proof -
  have "holds_after (run [Insert 1 7 (Finite 1) 0x2B] init_state) (\<lambda>s. find' 2 s = ok None)"
    by code_simp
  then obtain s where r: "run [Insert 1 7 (Finite 1) 0x2B] init_state = ok s"
    and f: "find' 2 s = ok None"
    by (auto elim!: holds_afterE)
  from C9_absent [OF f] r f show ?thesis
    by (intro holds_afterI [OF r]) simp
qed



end
